theory Spec2Isabelle
  imports Main "HOL-Library.Word"
begin

section \<open>Data model\<close>

text \<open>
  The repository is one Python class, \<open>Array\<close> (src/arrayfile/array.py): a growable array
  of fixed-width elements kept in a file and accessed through a memory mapping. The model
  is sequential; the lock and the finalizer of the class have no counterpart.
\<close>

type_synonym byte = "8 word"

text \<open>The exceptions the class and the library calls it makes can raise.\<close>

datatype exn =
    TypeError | IndexError | RuntimeError | ValueError | StructError
  | ZeroDivisionError | AttributeError | OSError | UnicodeError

text \<open>
  Python values handed to the public methods. \<open>PFloat m e\<close> is the float \<open>m * 2 ^ e\<close>.
  \<open>bool\<close> is a subclass of \<open>int\<close> in Python, so \<open>isinstance(x, int)\<close> holds for both.
\<close>

datatype pyval =
    PInt int | PBool bool | PFloat int int | PStr string | PNone | PList "pyval list"

fun isinstance_int :: "pyval \<Rightarrow> bool" where
  "isinstance_int (PInt i) = True"
| "isinstance_int (PBool b) = True"
| "isinstance_int v = False"

fun int_of :: "pyval \<Rightarrow> int" where
  "int_of (PInt i) = i"
| "int_of (PBool b) = (if b then 1 else 0)"
| "int_of v = 0"

text \<open>\<open>hasattr(x, "__iter__")\<close> and \<open>list(x)\<close> (\<open>None\<close> where \<open>list\<close> raises TypeError).\<close>

fun has_iter :: "pyval \<Rightarrow> bool" where
  "has_iter (PStr s) = True"
| "has_iter (PList vs) = True"
| "has_iter v = False"

fun to_list :: "pyval \<Rightarrow> pyval list option" where
  "to_list (PList vs) = Some vs"
| "to_list (PStr s) = Some (map (\<lambda>ch. PStr [ch]) s)"
| "to_list v = None"

text \<open>
  The element encoding. The class gets it from Python's \<open>struct\<close> module, which is not part
  of the repository: \<open>dtype\<close> is the format string, \<open>calcsize\<close> is \<open>struct.calcsize(dtype)\<close>,
  \<open>pack v\<close> is \<open>struct.pack(dtype, v)\<close> and \<open>unpack bs\<close> is \<open>struct.unpack(dtype, bs)[0]\<close>,
  both \<open>None\<close> where \<open>struct.error\<close> is raised. It is a parameter of every operation.
\<close>

record encoding =
  dtype :: string
  calcsize :: nat
  pack :: "pyval \<Rightarrow> byte list option"
  unpack :: "byte list \<Rightarrow> pyval option"

text \<open>
  The instance. \<open>disk\<close> is the content of the backing file, \<open>file_open\<close> says that
  \<open>_file\<close> is not \<open>None\<close>, \<open>mapped\<close> that \<open>_mmap\<close> is not \<open>None\<close>. A mapping is always
  created over the whole file and the file is resized only while no mapping is active, so
  the mapped bytes are the bytes of \<open>disk\<close>. \<open>_len\<close> is never negative (it is 0, read from
  an unsigned header field, or grown); \<open>_capacity\<close> and \<open>_capacity_bytes\<close> are Python
  integers that a negative size hint can drive below zero.
\<close>

record array =
  disk :: "byte list"
  file_open :: bool
  mapped :: bool
  len :: nat
  capacity :: int
  capacity_bytes :: int

datatype ret = Self | NotImplemented

definition CHUNK_SIZE_BYTES :: int where "CHUNK_SIZE_BYTES = 4096"
definition HEADER_SIZE :: nat where "HEADER_SIZE = 32"
definition HEADER_VERSION :: nat where "HEADER_VERSION = 1"
definition MAGIC :: "byte list" where "MAGIC = [0x41, 0x52, 0x59, 0x46]"

section \<open>Files, mappings and the header format\<close>

text \<open>\<open>file.truncate(n)\<close>: cut the file to \<open>n\<close> bytes, or extend it with zero bytes.\<close>

definition truncate :: "nat \<Rightarrow> byte list \<Rightarrow> byte list" where
  "truncate n d = take n d @ replicate (n - length d) 0"

text \<open>Little-endian unsigned fields of \<open>k\<close> bytes, as \<open>struct\<close> writes them under \<open><\<close>.\<close>

fun le_bytes :: "nat \<Rightarrow> nat \<Rightarrow> byte list" where
  "le_bytes 0 n = []"
| "le_bytes (Suc k) n = word_of_nat n # le_bytes k (n div 256)"

fun le_nat :: "byte list \<Rightarrow> nat" where
  "le_nat [] = 0"
| "le_nat (b # bs) = unat b + 256 * le_nat bs"

definition is_ascii :: "string \<Rightarrow> bool" where
  "is_ascii s = list_all (\<lambda>ch. (of_char ch :: nat) < 128) s"

definition encode_ascii :: "string \<Rightarrow> byte list" where
  "encode_ascii s = map (\<lambda>ch. word_of_nat (of_char ch)) s"

definition decode_ascii :: "byte list \<Rightarrow> string option" where
  "decode_ascii bs =
     (if list_all (\<lambda>b. unat b < 128) bs then Some (map (\<lambda>b. char_of (unat b)) bs) else None)"

text \<open>\<open>bytes.ljust(n, b"\x00")\<close>.\<close>

definition ljust :: "nat \<Rightarrow> byte list \<Rightarrow> byte list" where
  "ljust n bs = bs @ replicate (n - length bs) 0"

text \<open>
  \<open>struct.pack("<4sHB8sIQ5x", magic, version, dtype_len, dtype, element_size, length)\<close>:
  \<open>None\<close> where a number does not fit its field (\<open>struct.error\<close>); an \<open>s\<close> field cuts or
  pads its bytes to the field width.
\<close>

definition pack_header ::
  "byte list \<Rightarrow> nat \<Rightarrow> nat \<Rightarrow> byte list \<Rightarrow> nat \<Rightarrow> nat \<Rightarrow> byte list option" where
  "pack_header magic version dtype_len dtype_bytes element_size length_field =
     (if version < 2 ^ 16 \<and> dtype_len < 2 ^ 8 \<and> element_size < 2 ^ 32 \<and> length_field < 2 ^ 64
      then Some (ljust 4 (take 4 magic) @ le_bytes 2 version @ le_bytes 1 dtype_len
                 @ ljust 8 (take 8 dtype_bytes) @ le_bytes 4 element_size
                 @ le_bytes 8 length_field @ replicate 5 0)
      else None)"

text \<open>\<open>struct.unpack\<close> of the same format, on exactly 32 bytes.\<close>

definition unpack_header :: "byte list \<Rightarrow> byte list \<times> nat \<times> nat \<times> byte list \<times> nat \<times> nat" where
  "unpack_header h =
     (take 4 h, le_nat (take 2 (drop 4 h)), le_nat (take 1 (drop 6 h)), take 8 (drop 7 h),
      le_nat (take 4 (drop 15 h)), le_nat (take 8 (drop 19 h)))"

text \<open>
  Slices of the mapping. \<open>_mmap[a:b]\<close> reads the slice clipped to the mapping;
  \<open>_mmap[a:b] = data\<close> raises IndexError unless the clipped slice and the data have the same
  size. Subscripting \<open>None\<close> raises TypeError.
\<close>

definition mmap_get :: "array \<Rightarrow> nat \<Rightarrow> nat \<Rightarrow> exn + byte list" where
  "mmap_get s a b = (if \<not> mapped s then Inl TypeError else Inr (take (b - a) (drop a (disk s))))"

definition mmap_set :: "array \<Rightarrow> nat \<Rightarrow> nat \<Rightarrow> byte list \<Rightarrow> (exn + unit) \<times> array" where
  "mmap_set s a b data =
     (if \<not> mapped s then (Inl TypeError, s)
      else if min b (length (disk s)) - min a (length (disk s)) \<noteq> length data
      then (Inl IndexError, s)
      else (Inr (), s\<lparr>disk := take a (disk s) @ data @ drop b (disk s)\<rparr>))"

section \<open>The methods of the class\<close>

text \<open>
  Every method takes the encoding and the instance and returns what it returns or raises,
  with the instance as the call left it: an exception does not undo the assignments made
  before it.
\<close>

definition validate_index :: "array \<Rightarrow> pyval \<Rightarrow> exn + nat" where
  "validate_index s index =
     (if \<not> isinstance_int index then Inl TypeError
      else let i = int_of index;
               i = (if i < 0 then int (len s) + i else i)
           in if \<not> (0 \<le> i \<and> i < int (len s)) then Inl IndexError else Inr (nat i))"

definition pack_value :: "encoding \<Rightarrow> pyval \<Rightarrow> exn + byte list" where
  "pack_value c v = (case pack c v of None \<Rightarrow> Inl TypeError | Some bs \<Rightarrow> Inr bs)"

definition write_header :: "encoding \<Rightarrow> array \<Rightarrow> (exn + unit) \<times> array" where
  "write_header c s =
     (if \<not> is_ascii (dtype c) then (Inl UnicodeError, s)
      else let dtype_bytes = take 8 (encode_ascii (dtype c));
               dtype_bytes = ljust 8 dtype_bytes
           in case pack_header MAGIC HEADER_VERSION (length (dtype c)) dtype_bytes
                     (calcsize c) (len s) of
                None \<Rightarrow> (Inl StructError, s)
              | Some header \<Rightarrow>
                  if \<not> file_open s then (Inl AttributeError, s)
                  else (Inr (), s\<lparr>disk := header @ drop (length header) (disk s)\<rparr>))"

definition read_header :: "encoding \<Rightarrow> array \<Rightarrow> (exn + bool) \<times> array" where
  "read_header c s =
     (if \<not> file_open s then (Inl AttributeError, s)
      else let header_data = take HEADER_SIZE (disk s)
           in if length header_data < HEADER_SIZE then (Inr False, s)
              else case unpack_header header_data of
                (magic, version, dtype_len, dtype_bytes, element_size, length_field) \<Rightarrow>
                  if magic \<noteq> MAGIC then (Inr False, s)
                  else if version \<noteq> HEADER_VERSION then (Inl ValueError, s)
                  else (case decode_ascii (take dtype_len dtype_bytes) of
                          None \<Rightarrow> (Inl UnicodeError, s)
                        | Some d \<Rightarrow>
                            if d \<noteq> dtype c then (Inl ValueError, s)
                            else if element_size \<noteq> calcsize c then (Inl ValueError, s)
                            else (Inr True, s\<lparr>len := length_field\<rparr>)))"

definition allocate_capacity :: "encoding \<Rightarrow> int \<Rightarrow> array \<Rightarrow> (exn + unit) \<times> array" where
  "allocate_capacity c min_elements s =
     (let bytes_needed = min_elements * int (calcsize c) + int HEADER_SIZE;
          chunks_needed = (bytes_needed + CHUNK_SIZE_BYTES - 1) div CHUNK_SIZE_BYTES;
          total_file_size = chunks_needed * CHUNK_SIZE_BYTES;
          s = s\<lparr>capacity_bytes := total_file_size - int HEADER_SIZE\<rparr>
      in if calcsize c = 0 then (Inl ZeroDivisionError, s)
         else let s = s\<lparr>capacity := capacity_bytes s div int (calcsize c)\<rparr>
              in if \<not> file_open s then (Inl AttributeError, s)
                 else if total_file_size < 0 then (Inl OSError, s)
                 else (Inr (), s\<lparr>disk := truncate (nat total_file_size) (disk s)\<rparr>))"

text \<open>
  \<open>_resize\<close>. Where \<open>_allocate_capacity\<close> raises, the mapping has been closed already; that
  needs a mapped instance with no open file or with element size 0, which no constructor
  call produces.
\<close>

definition resize :: "encoding \<Rightarrow> int \<Rightarrow> array \<Rightarrow> (exn + unit) \<times> array" where
  "resize c min_new_len s =
     (let s = (if mapped s then s\<lparr>mapped := False\<rparr> else s)
      in case allocate_capacity c min_new_len s of
           (Inl e, s) \<Rightarrow> (Inl e, s)
         | (Inr u, s) \<Rightarrow> (Inr (), s\<lparr>mapped := True\<rparr>))"

text \<open>
  The constructor. \<open>existing\<close> is the content of the file at \<open>filename\<close>, \<open>None\<close> where no
  such file exists; \<open>filename=None\<close> is the case \<open>existing = None\<close> (a fresh temporary file,
  always created). A mode without \<open>w\<close> is taken to be the default \<open>r+b\<close>. The result is the
  new instance, or the exception that leaves the constructor.
\<close>

definition init :: "encoding \<Rightarrow> byte list option \<Rightarrow> string \<Rightarrow> int \<Rightarrow> exn + array" where
  "init c existing mode initial_elements =
     (let s = \<lparr>disk = (case existing of None \<Rightarrow> [] | Some d \<Rightarrow> d), file_open = False,
               mapped = False, len = 0, capacity = 0, capacity_bytes = 0\<rparr>;
          map_it = (\<lambda>s. if capacity_bytes s > 0 then s\<lparr>mapped := True\<rparr> else s)
      in if CHR ''w'' \<in> set mode \<or> existing = None
         then let s = s\<lparr>disk := [], file_open := True\<rparr>;
                  s = s\<lparr>len := 0\<rparr>
              in (case allocate_capacity c initial_elements s of
                    (Inl e, s) \<Rightarrow> Inl e
                  | (Inr u, s) \<Rightarrow>
                      (case write_header c s of
                         (Inl e, s) \<Rightarrow> Inl e
                       | (Inr u, s) \<Rightarrow> Inr (map_it s)))
         else let s = s\<lparr>file_open := True\<rparr>
              in (case read_header c s of
                    (Inl e, s) \<Rightarrow> Inl e
                  | (Inr ok, s) \<Rightarrow>
                      if \<not> ok then Inl ValueError
                      else let current_file_size = int (length (disk s));
                               data_size = current_file_size - int HEADER_SIZE
                           in if calcsize c = 0 then Inl ZeroDivisionError
                              else let min_elements =
                                         (data_size + int (calcsize c) - 1) div int (calcsize c)
                                   in (case allocate_capacity c min_elements s of
                                         (Inl e, s) \<Rightarrow> Inl e
                                       | (Inr u, s) \<Rightarrow> Inr (map_it s))))"

definition getitem :: "encoding \<Rightarrow> pyval \<Rightarrow> array \<Rightarrow> exn + pyval" where
  "getitem c index s =
     (case validate_index s index of
        Inl e \<Rightarrow> Inl e
      | Inr i \<Rightarrow>
          if \<not> mapped s then Inl RuntimeError
          else let offset = HEADER_SIZE + i * calcsize c
               in (case mmap_get s offset (offset + calcsize c) of
                     Inl e \<Rightarrow> Inl e
                   | Inr data \<Rightarrow>
                       (case unpack c data of None \<Rightarrow> Inl StructError | Some v \<Rightarrow> Inr v)))"

definition setitem :: "encoding \<Rightarrow> pyval \<Rightarrow> pyval \<Rightarrow> array \<Rightarrow> (exn + unit) \<times> array" where
  "setitem c index v s =
     (case validate_index s index of
        Inl e \<Rightarrow> (Inl e, s)
      | Inr i \<Rightarrow>
          if \<not> mapped s then (Inl RuntimeError, s)
          else let offset = HEADER_SIZE + i * calcsize c
               in (case pack_value c v of
                     Inl e \<Rightarrow> (Inl e, s)
                   | Inr packed_value \<Rightarrow> mmap_set s offset (offset + calcsize c) packed_value))"

definition append :: "encoding \<Rightarrow> pyval \<Rightarrow> array \<Rightarrow> (exn + unit) \<times> array" where
  "append c v s =
     (case (if int (len s) = capacity s then resize c (int (len s) + 1) s else (Inr (), s)) of
        (Inl e, s) \<Rightarrow> (Inl e, s)
      | (Inr u, s) \<Rightarrow>
          let offset = HEADER_SIZE + len s * calcsize c
          in (case pack_value c v of
                Inl e \<Rightarrow> (Inl e, s)
              | Inr packed_value \<Rightarrow>
                  (case mmap_set s offset (offset + calcsize c) packed_value of
                     (Inl e, s) \<Rightarrow> (Inl e, s)
                   | (Inr u, s) \<Rightarrow> (Inr (), s\<lparr>len := len s + 1\<rparr>))))"

text \<open>The loop of \<open>extend\<close>: pack and write each value, moving the offset on.\<close>

fun write_values :: "encoding \<Rightarrow> nat \<Rightarrow> pyval list \<Rightarrow> array \<Rightarrow> (exn + unit) \<times> array" where
  "write_values c offset [] s = (Inr (), s)"
| "write_values c offset (v # vs) s =
     (case pack_value c v of
        Inl e \<Rightarrow> (Inl e, s)
      | Inr packed_value \<Rightarrow>
          (case mmap_set s offset (offset + calcsize c) packed_value of
             (Inl e, s) \<Rightarrow> (Inl e, s)
           | (Inr u, s) \<Rightarrow> write_values c (offset + calcsize c) vs s))"

definition extend :: "encoding \<Rightarrow> pyval \<Rightarrow> array \<Rightarrow> (exn + unit) \<times> array" where
  "extend c iterable s =
     (case to_list iterable of
        None \<Rightarrow> (Inl TypeError, s)
      | Some values \<Rightarrow>
          let num_new_elements = length values
          in if num_new_elements = 0 then (Inr (), s)
             else let new_len = len s + num_new_elements
                  in (case (if int new_len > capacity s then resize c (int new_len) s
                            else (Inr (), s)) of
                        (Inl e, s) \<Rightarrow> (Inl e, s)
                      | (Inr u, s) \<Rightarrow>
                          (case write_values c (HEADER_SIZE + len s * calcsize c) values s of
                             (Inl e, s) \<Rightarrow> (Inl e, s)
                           | (Inr u, s) \<Rightarrow> (Inr (), s\<lparr>len := new_len\<rparr>))))"

definition iadd :: "encoding \<Rightarrow> pyval \<Rightarrow> array \<Rightarrow> (exn + ret) \<times> array" where
  "iadd c other s =
     (if has_iter other
      then case extend c other s of
             (Inl e, s) \<Rightarrow> (Inl e, s)
           | (Inr u, s) \<Rightarrow> (Inr Self, s)
      else (Inr NotImplemented, s))"

text \<open>The loop of \<open>__imul__\<close>: \<open>k\<close> copies of the block at \<open>src_offset\<close>, one after the other.\<close>

fun copy_chunks :: "nat \<Rightarrow> nat \<Rightarrow> nat \<Rightarrow> nat \<Rightarrow> array \<Rightarrow> (exn + unit) \<times> array" where
  "copy_chunks 0 src_offset dst_offset chunk_size s = (Inr (), s)"
| "copy_chunks (Suc k) src_offset dst_offset chunk_size s =
     (case mmap_get s src_offset (src_offset + chunk_size) of
        Inl e \<Rightarrow> (Inl e, s)
      | Inr data \<Rightarrow>
          (case mmap_set s dst_offset (dst_offset + chunk_size) data of
             (Inl e, s) \<Rightarrow> (Inl e, s)
           | (Inr u, s) \<Rightarrow> copy_chunks k src_offset (dst_offset + chunk_size) chunk_size s))"

definition imul :: "encoding \<Rightarrow> pyval \<Rightarrow> array \<Rightarrow> (exn + ret) \<times> array" where
  "imul c val s =
     (if \<not> isinstance_int val \<or> int_of val < 0 then (Inr NotImplemented, s)
      else if int_of val = 0
      then let s = s\<lparr>len := 0\<rparr>;
               s = (if mapped s then s\<lparr>mapped := False\<rparr> else s);
               s = (if file_open s then s\<lparr>disk := truncate 0 (disk s)\<rparr> else s);
               s = s\<lparr>capacity := 0\<rparr>
           in (Inr Self, s\<lparr>capacity_bytes := 0\<rparr>)
      else if int_of val > 1
      then let original_len = len s;
               new_total_len = original_len * nat (int_of val)
           in case (if int new_total_len > capacity s then resize c (int new_total_len) s
                    else (Inr (), s)) of
                (Inl e, s) \<Rightarrow> (Inl e, s)
              | (Inr u, s) \<Rightarrow>
                  (case copy_chunks (nat (int_of val - 1)) HEADER_SIZE
                          (HEADER_SIZE + original_len * calcsize c)
                          (original_len * calcsize c) s of
                     (Inl e, s) \<Rightarrow> (Inl e, s)
                   | (Inr u, s) \<Rightarrow> (Inr Self, s\<lparr>len := new_total_len\<rparr>))
      else (Inr Self, s))"

text \<open>\<open>flush\<close> only forces written pages to the file, which the model does not tell apart.\<close>

definition flush :: "array \<Rightarrow> (exn + unit) \<times> array" where
  "flush s = (Inr (), s)"

definition close :: "encoding \<Rightarrow> array \<Rightarrow> (exn + unit) \<times> array" where
  "close c s =
     (let s = (if mapped s then s\<lparr>mapped := False\<rparr> else s)
      in if file_open s
         then case write_header c s of
                (Inl e, s) \<Rightarrow> (Inl e, s)
              | (Inr u, s) \<Rightarrow>
                  let current_file_size = length (disk s);
                      actual_total_size = HEADER_SIZE + len s * calcsize c;
                      s = (if current_file_size > actual_total_size
                           then s\<lparr>disk := truncate actual_total_size (disk s)\<rparr> else s)
                  in (Inr (), s\<lparr>file_open := False\<rparr>)
         else (Inr (), s))"

text \<open>
  \<open>__iter__\<close>: the result of \<open>self[i]\<close> for each \<open>i\<close> below the length read at the start
  (the generator itself ends at the first result that is an exception).
\<close>

definition iter :: "encoding \<Rightarrow> array \<Rightarrow> (exn + pyval) list" where
  "iter c s = map (\<lambda>i. getitem c (PInt (int i)) s) [0..<len s]"

section \<open>Concrete encodings\<close>

text \<open>
  Formats of the \<open>struct\<close> module that hold one signed little-endian integer of \<open>n\<close> bytes
  between \<open>pre\<close> and \<open>post\<close> pad bytes (\<open>x\<close>), such as \<open><i\<close> (4 bytes), \<open>bxx\<close> (one byte
  and two pad bytes) and \<open>xxxxxxxxb\<close> (eight pad bytes and one byte). Packing takes an
  integer in range and fails on anything else; unpacking wants exactly \<open>calcsize\<close>
  bytes and returns a Python \<open>int\<close>.
\<close>

definition int_codec :: "string \<Rightarrow> nat \<Rightarrow> nat \<Rightarrow> nat \<Rightarrow> encoding" where
  "int_codec fmt pre n post =
     \<lparr>dtype = fmt, calcsize = pre + n + post,
      pack = (\<lambda>v. if isinstance_int v \<and> - (2 ^ (8 * n - 1)) \<le> int_of v
                      \<and> int_of v < 2 ^ (8 * n - 1)
                   then Some (replicate pre 0 @ le_bytes n (nat (int_of v mod 2 ^ (8 * n)))
                              @ replicate post 0)
                   else None),
      unpack = (\<lambda>bs. if length bs \<noteq> pre + n + post then None
                      else let u = int (le_nat (take n (drop pre bs)))
                           in Some (PInt (if u \<ge> 2 ^ (8 * n - 1) then u - 2 ^ (8 * n) else u)))\<rparr>"

definition int32 :: encoding where
  "int32 = int_codec ''<i'' 0 4 0"


definition padded_int8 :: encoding where
  "padded_int8 = int_codec ''xxxxxxxxb'' 8 1 0"

section \<open>Auxiliary definitions\<close>

text \<open>
  The 32 bytes \<open>_write_header\<close> writes for an instance of length \<open>L\<close>, and the condition
  under which \<open>struct.pack\<close> accepts its fields.
\<close>

definition header_of :: "encoding \<Rightarrow> nat \<Rightarrow> byte list" where
  "header_of c L =
     MAGIC @ le_bytes 2 HEADER_VERSION @ le_bytes 1 (length (dtype c))
     @ ljust 8 (take 8 (encode_ascii (dtype c))) @ le_bytes 4 (calcsize c)
     @ le_bytes 8 L @ replicate 5 0"

definition header_ok :: "encoding \<Rightarrow> nat \<Rightarrow> bool" where
  "header_ok c L \<longleftrightarrow>
     is_ascii (dtype c) \<and> length (dtype c) < 2 ^ 8 \<and> calcsize c < 2 ^ 32 \<and> L < 2 ^ 64"

text \<open>The file size \<open>_allocate_capacity\<close> chooses for \<open>m\<close> elements of \<open>es\<close> bytes.\<close>

definition alloc_size :: "nat \<Rightarrow> nat \<Rightarrow> nat" where
  "alloc_size es m = (m * es + 32 + 4095) div 4096 * 4096"

text \<open>
  The invariant of an open instance: the length is within the capacity; while a mapping is
  active the file is the header and the capacity region, a positive multiple of the chunk
  size long; without a mapping the instance is the cleared one.
\<close>

definition array_inv :: "encoding \<Rightarrow> array \<Rightarrow> bool" where
  "array_inv c s \<longleftrightarrow>
     0 < calcsize c \<and> file_open s \<and> int (len s) \<le> capacity s \<and>
     (if mapped s
      then int (length (disk s)) = int HEADER_SIZE + capacity_bytes s
           \<and> CHUNK_SIZE_BYTES dvd int (length (disk s)) \<and> 0 < length (disk s)
           \<and> capacity s = capacity_bytes s div int (calcsize c)
      else capacity s = 0 \<and> capacity_bytes s = 0 \<and> disk s = [])"

text \<open>The instance after \<open>_resize(m)\<close> has run without an exception.\<close>

definition grown :: "encoding \<Rightarrow> nat \<Rightarrow> array \<Rightarrow> array" where
  "grown c m s =
     s\<lparr>mapped := True,
       capacity_bytes := int (alloc_size (calcsize c) m) - 32,
       capacity := (int (alloc_size (calcsize c) m) - 32) div int (calcsize c),
       disk := truncate (alloc_size (calcsize c) m) (disk s)\<rparr>"

text \<open>Two instances that differ at most in the bytes of a file of the same size.\<close>

definition same_shape :: "array \<Rightarrow> array \<Rightarrow> bool" where
  "same_shape s s' \<longleftrightarrow> s' = s\<lparr>disk := disk s'\<rparr> \<and> length (disk s') = length (disk s)"

text \<open>
  The calls a client can make on an open instance, and the instance each leaves behind
  (whether it returned or raised). \<open>clears\<close> holds of the calls \<open>a *= 0\<close>.
\<close>

datatype call =
    Append pyval | Extend pyval | SetItem pyval pyval | GetItem pyval
  | IAdd pyval | IMul pyval | Flush

fun after :: "encoding \<Rightarrow> call \<Rightarrow> array \<Rightarrow> array" where
  "after c (Append v) s = snd (append c v s)"
| "after c (Extend vs) s = snd (extend c vs s)"
| "after c (SetItem i v) s = snd (setitem c i v s)"
| "after c (GetItem i) s = s"
| "after c (IAdd vs) s = snd (iadd c vs s)"
| "after c (IMul n) s = snd (imul c n s)"
| "after c Flush s = snd (flush s)"

fun clears :: "call \<Rightarrow> bool" where
  "clears (IMul n) = (isinstance_int n \<and> int_of n = 0)"
| "clears k = False"

text \<open>The length field of the header a file starts with.\<close>

definition stored_length :: "byte list \<Rightarrow> nat" where
  "stored_length d = le_nat (take 8 (drop 19 (take HEADER_SIZE d)))"

text \<open>The instance the constructor starts from, before it sizes the file.\<close>

definition blank :: "byte list \<Rightarrow> array" where
  "blank d = \<lparr>disk = d, file_open = True, mapped = False, len = 0, capacity = 0,
              capacity_bytes = 0\<rparr>"

text \<open>The element count the constructor asks for when it opens a file with \<open>n\<close> data bytes.\<close>

definition elements_for :: "nat \<Rightarrow> nat \<Rightarrow> nat" where
  "elements_for es n = nat ((int n + int es - 1) div int es)"

text \<open>The bytes of the elements: the first \<open>len\<close> slots after the header.\<close>

definition elem_bytes :: "encoding \<Rightarrow> array \<Rightarrow> byte list" where
  "elem_bytes c s = take (len s * calcsize c) (drop HEADER_SIZE (disk s))"

text \<open>
  A value of the encoding: \<open>struct\<close> packs it into \<open>calcsize\<close> bytes that unpack to the
  same value.
\<close>

definition encodes :: "encoding \<Rightarrow> pyval \<Rightarrow> bool" where
  "encodes c v =
     (case pack c v of
        None \<Rightarrow> False
      | Some bs \<Rightarrow> length bs = calcsize c \<and> unpack c bs = Some v)"

definition packed :: "encoding \<Rightarrow> pyval \<Rightarrow> byte list" where
  "packed c v = (case pack c v of None \<Rightarrow> [] | Some bs \<Rightarrow> bs)"

text \<open>The client loop \<open>for v in vs: a.append(v)\<close>, which stops at the first exception.\<close>

fun append_each :: "encoding \<Rightarrow> pyval list \<Rightarrow> array \<Rightarrow> (exn + unit) \<times> array" where
  "append_each c [] s = (Inr (), s)"
| "append_each c (v # vs) s =
     (case append c v s of
        (Inl e, s) \<Rightarrow> (Inl e, s)
      | (Inr u, s) \<Rightarrow> append_each c vs s)"

text \<open>
  The round trip: create a file with a capacity hint, append the values, close, and open
  the file again with the same encoding.
\<close>

definition roundtrip :: "encoding \<Rightarrow> int \<Rightarrow> pyval list \<Rightarrow> exn + array" where
  "roundtrip c hint vs =
     (case init c None ''w+b'' hint of
        Inl e \<Rightarrow> Inl e
      | Inr s \<Rightarrow>
          (case append_each c vs s of
             (Inl e, s) \<Rightarrow> Inl e
           | (Inr u, s) \<Rightarrow>
               (case close c s of
                  (Inl e, s) \<Rightarrow> Inl e
                | (Inr u, s) \<Rightarrow> init c (Some (disk s)) ''r+b'' 0)))"

text \<open>
  Two instances to try the methods on: a fresh \<open><i\<close> array after \<open>append(10)\<close>,
  \<open>append(20)\<close>, \<open>append(30)\<close>, and the same array after \<open>a *= 0\<close>.
\<close>

definition sample :: array where
  "sample =
     (case init int32 None ''w+b'' 0 of
        Inl e \<Rightarrow> blank []
      | Inr s \<Rightarrow> snd (append_each int32 [PInt 10, PInt 20, PInt 30] s))"

definition cleared :: array where
  "cleared = snd (imul int32 (PInt 0) sample)"

text \<open>
  What the size of the file of a mapped instance satisfies: it is a positive multiple of
  the chunk size, the header and \<open>capacity_bytes\<close> bytes, and the capacity is the number
  of whole elements that fit.
\<close>

definition sized :: "encoding \<Rightarrow> array \<Rightarrow> bool" where
  "sized c s \<longleftrightarrow>
     0 < length (disk s) \<and> CHUNK_SIZE_BYTES dvd int (length (disk s))
     \<and> int (length (disk s)) = int HEADER_SIZE + capacity_bytes s
     \<and> capacity s = capacity_bytes s div int (calcsize c)
     \<and> int HEADER_SIZE + capacity s * int (calcsize c) \<le> int (length (disk s))
     \<and> int (length (disk s)) < int HEADER_SIZE + (capacity s + 1) * int (calcsize c)"

text \<open>
  Further instances: fresh arrays of the formats \<open><i\<close> and \<open>bxx\<close>, a fresh \<open><i\<close> array made
  with the capacity hint -8, and the \<open><i\<close> array opened on a file that holds nothing but a
  header with the length field 2000.
\<close>

definition fresh :: "encoding \<Rightarrow> int \<Rightarrow> array" where
  "fresh c hint = (case init c None ''w+b'' hint of Inl e \<Rightarrow> blank [] | Inr s \<Rightarrow> s)"

definition short_file :: array where
  "short_file =
     (case init int32 (Some (header_of int32 2000)) ''r+b'' 0 of
        Inl e \<Rightarrow> blank []
      | Inr s \<Rightarrow> s)"


section \<open>Bytes, header and allocation\<close>

lemma length_le_bytes [simp]: "length (le_bytes k n) = k"
  by (induction k arbitrary: n) simp_all

lemma le_nat_le_bytes: "n < 256 ^ k \<Longrightarrow> le_nat (le_bytes k n) = n"
proof (induction k arbitrary: n)
  case 0
  then show ?case by simp
next
  case (Suc k)
  have "n div 256 < 256 ^ k"
    using Suc.prems by (simp add: less_mult_imp_div_less mult.commute)
  then have "le_nat (le_bytes k (n div 256)) = n div 256"
    by (rule Suc.IH)
  moreover have "unat (word_of_nat n :: byte) = n mod 256"
    by (simp add: unat_of_nat)
  ultimately show ?case by simp
qed

lemma length_truncate [simp]: "length (truncate n d) = n"
  by (simp add: truncate_def)

lemma truncate_extend: "length d \<le> n \<Longrightarrow> truncate n d = d @ replicate (n - length d) 0"
  by (simp add: truncate_def)

lemma truncate_cut: "n \<le> length d \<Longrightarrow> truncate n d = take n d"
  by (simp add: truncate_def)

lemma decode_encode_ascii: "is_ascii s \<Longrightarrow> decode_ascii (encode_ascii s) = Some s"
proof -
  assume a: "is_ascii s"
  have b: "\<And>ch. ch \<in> set s \<Longrightarrow> unat (word_of_nat (of_char ch) :: byte) = of_char ch"
  proof -
    fix ch assume "ch \<in> set s"
    then have "(of_char ch :: nat) < 128" using a by (simp add: is_ascii_def list_all_iff)
    then show "unat (word_of_nat (of_char ch) :: byte) = of_char ch"
      by (simp add: unat_of_nat)
  qed
  have "list_all (\<lambda>b. unat b < 128) (encode_ascii s)"
    using a b by (simp add: is_ascii_def encode_ascii_def list_all_iff)
  moreover have "map (\<lambda>b. char_of (unat b)) (encode_ascii s) = s"
    using b by (simp add: encode_ascii_def map_idI)
  ultimately show ?thesis by (simp add: decode_ascii_def)
qed

lemma length_encode_ascii [simp]: "length (encode_ascii s) = length s"
  by (simp add: encode_ascii_def)

lemma length_MAGIC [simp]: "length MAGIC = 4"
  by (simp add: MAGIC_def)

lemma length_ljust: "length bs \<le> n \<Longrightarrow> length (ljust n bs) = n"
  by (simp add: ljust_def)

lemma length_header_of [simp]: "length (header_of c L) = 32"
  by (simp add: header_of_def length_ljust)

lemma pack_header_ok:
  "header_ok c L \<Longrightarrow>
   pack_header MAGIC HEADER_VERSION (length (dtype c)) (ljust 8 (take 8 (encode_ascii (dtype c))))
     (calcsize c) L = Some (header_of c L)"
  by (simp add: pack_header_def header_ok_def header_of_def HEADER_VERSION_def ljust_def)

lemma write_header_ok:
  "header_ok c (len s) \<Longrightarrow> file_open s \<Longrightarrow>
   write_header c s = (Inr (), s\<lparr>disk := header_of c (len s) @ drop 32 (disk s)\<rparr>)"
  using pack_header_ok [of c "len s"]
  by (simp add: write_header_def header_ok_def Let_def)

lemma unpack_header_of:
  "header_ok c L \<Longrightarrow> length (dtype c) \<le> 8 \<Longrightarrow>
   unpack_header (header_of c L) =
     (MAGIC, HEADER_VERSION, length (dtype c), ljust 8 (encode_ascii (dtype c)), calcsize c, L)"
proof -
  assume ok: "header_ok c L" and le: "length (dtype c) \<le> 8"
  have l8: "length (ljust 8 (encode_ascii (dtype c))) = 8"
    using le by (simp add: length_ljust)
  have v: "le_nat (le_bytes 2 HEADER_VERSION) = HEADER_VERSION"
    by (rule le_nat_le_bytes) (simp add: HEADER_VERSION_def)
  have d: "le_nat (le_bytes 1 (length (dtype c))) = length (dtype c)"
    by (rule le_nat_le_bytes) (use ok in \<open>simp add: header_ok_def\<close>)
  have e: "le_nat (le_bytes 4 (calcsize c)) = calcsize c"
    by (rule le_nat_le_bytes) (use ok in \<open>simp add: header_ok_def\<close>)
  have n: "le_nat (le_bytes 8 L) = L"
    by (rule le_nat_le_bytes) (use ok in \<open>simp add: header_ok_def\<close>)
  show ?thesis
    using le by (simp add: unpack_header_def header_of_def l8 v d e n unat_of_nat)
qed

lemma take_ljust_encode:
  "length (dtype c) \<le> 8 \<Longrightarrow>
   take (length (dtype c)) (ljust 8 (encode_ascii (dtype c))) = encode_ascii (dtype c)"
  by (simp add: ljust_def)

lemma read_header_ok:
  assumes "header_ok c L" "length (dtype c) \<le> 8" "file_open s"
    and "take 32 (disk s) = header_of c L"
  shows "read_header c s = (Inr True, s\<lparr>len := L\<rparr>)"
proof -
  have "length (take 32 (disk s)) = 32"
    using assms(4) by simp
  moreover have "decode_ascii (encode_ascii (dtype c)) = Some (dtype c)"
    using assms(1) by (simp add: decode_encode_ascii header_ok_def)
  ultimately show ?thesis
    using assms unpack_header_of [OF assms(1,2)]
    by (simp add: read_header_def HEADER_SIZE_def Let_def take_ljust_encode del: length_take)
qed

lemma alloc_size_dvd: "4096 dvd alloc_size es m"
  by (simp add: alloc_size_def)

lemma alloc_size_ge: "m * es + 32 \<le> alloc_size es m"
proof -
  define a where "a = m * es + 32 + 4095"
  have "a mod 4096 < 4096" by simp
  moreover have "a div 4096 * 4096 = a - a mod 4096"
    by (simp add: minus_mod_eq_div_mult)
  ultimately have "a - 4095 \<le> a div 4096 * 4096" by linarith
  then show ?thesis by (simp add: alloc_size_def a_def)
qed

lemma alloc_size_less: "alloc_size es m < m * es + 32 + 4096"
proof -
  have "alloc_size es m \<le> m * es + 32 + 4095"
    unfolding alloc_size_def by (rule div_times_less_eq_dividend)
  then show ?thesis by linarith
qed

lemma alloc_size_mono: "m \<le> n \<Longrightarrow> alloc_size es m \<le> alloc_size es n"
  unfolding alloc_size_def
  by (intro mult_le_mono1 div_le_mono add_le_mono mult_le_mono1) simp_all

lemma alloc_size_int:
  "0 \<le> m \<Longrightarrow>
   (m * int es + int HEADER_SIZE + CHUNK_SIZE_BYTES - 1) div CHUNK_SIZE_BYTES * CHUNK_SIZE_BYTES
     = int (alloc_size es (nat m))"
proof -
  assume "0 \<le> m"
  then obtain k where k: "m = int k" using nonneg_int_cases by blast
  have a: "m * int es + 32 + 4096 - 1 = int (k * es + 32 + 4095)"
    by (simp add: k)
  have b: "int (alloc_size es k) = int (k * es + 32 + 4095) div 4096 * 4096"
    unfolding alloc_size_def by (simp only: of_nat_mult zdiv_int of_nat_numeral)
  show ?thesis
    unfolding HEADER_SIZE_def CHUNK_SIZE_BYTES_def k nat_int b
    using a unfolding k by (simp only: of_nat_numeral)
qed

lemma allocate_capacity_ok:
  assumes "0 \<le> m" "0 < calcsize c" "file_open s"
  shows "allocate_capacity c m s =
           (Inr (), s\<lparr>capacity_bytes := int (alloc_size (calcsize c) (nat m)) - 32,
                      capacity := (int (alloc_size (calcsize c) (nat m)) - 32) div int (calcsize c),
                      disk := truncate (alloc_size (calcsize c) (nat m)) (disk s)\<rparr>)"
  using assms alloc_size_int [OF assms(1), of "calcsize c"]
  by (simp add: allocate_capacity_def Let_def HEADER_SIZE_def)

lemma capacity_covers:
  "0 < es \<Longrightarrow> int m \<le> (int (alloc_size es m) - 32) div int es"
proof -
  assume es: "0 < es"
  have "int m * int es \<le> int (alloc_size es m) - 32"
    using alloc_size_ge [of m es] by (simp add: algebra_simps flip: of_nat_mult) 
  then have "int m * int es div int es \<le> (int (alloc_size es m) - 32) div int es"
    by (rule zdiv_mono1) (use es in simp)
  then show ?thesis using es by simp
qed


section \<open>Growing the file\<close>

lemma resize_ok:
  "0 < calcsize c \<Longrightarrow> file_open s \<Longrightarrow> resize c (int m) s = (Inr (), grown c m s)"
  by (simp add: resize_def allocate_capacity_ok grown_def)

lemma grown_simps [simp]:
  "len (grown c m s) = len s" "file_open (grown c m s) = file_open s" "mapped (grown c m s)"
  "length (disk (grown c m s)) = alloc_size (calcsize c) m"
  by (simp_all add: grown_def)

lemma alloc_size_pos: "0 < alloc_size es m"
  using alloc_size_ge [of m es] by linarith

lemma grown_capacity: "0 < calcsize c \<Longrightarrow> int m \<le> capacity (grown c m s)"
  by (simp add: grown_def capacity_covers)

lemma alloc_size_dvd_int: "(4096::int) dvd int (alloc_size es m)"
  unfolding alloc_size_def by simp

lemma array_inv_grown:
  "0 < calcsize c \<Longrightarrow> file_open s \<Longrightarrow> len s \<le> m \<Longrightarrow> array_inv c (grown c m s)"
  using capacity_covers [of "calcsize c" m] alloc_size_dvd_int [of "calcsize c" m]
    alloc_size_pos [of "calcsize c" m]
  by (simp add: array_inv_def grown_def HEADER_SIZE_def CHUNK_SIZE_BYTES_def)

lemma div_less_imp: "0 < (e::int) \<Longrightarrow> b div e < m \<Longrightarrow> b < m * e"
proof -
  assume e: "0 < e" and "b div e < m"
  define q where "q = b div e"
  define r where "r = b mod e"
  have "q + 1 \<le> m" using \<open>b div e < m\<close> by (simp add: q_def)
  then have "(q + 1) * e \<le> m * e" using e by (simp add: mult_right_mono)
  then have "q * e + e \<le> m * e" by (simp add: algebra_simps)
  moreover have "b = q * e + r" by (simp add: q_def r_def)
  moreover have "r < e" using e by (simp add: r_def)
  ultimately show ?thesis by linarith
qed

lemma less_div_imp: "0 < (e::int) \<Longrightarrow> i < b div e \<Longrightarrow> i * e + e \<le> b"
proof -
  assume e: "0 < e" and "i < b div e"
  define q where "q = b div e"
  define r where "r = b mod e"
  have "i + 1 \<le> q" using \<open>i < b div e\<close> by (simp add: q_def)
  then have "(i + 1) * e \<le> q * e" using e by (simp add: mult_right_mono)
  then have "i * e + e \<le> q * e" by (simp add: algebra_simps)
  moreover have "b = q * e + r" by (simp add: q_def r_def)
  moreover have "0 \<le> r" using e by (simp add: r_def)
  ultimately show ?thesis by linarith
qed

lemma slot_fits:
  assumes "array_inv c s" "int i < capacity s"
  shows "mapped s" "HEADER_SIZE + i * calcsize c + calcsize c \<le> length (disk s)"
proof -
  show m: "mapped s" using assms by (auto simp: array_inv_def split: if_splits)
  have e: "0 < int (calcsize c)" using assms by (simp add: array_inv_def)
  have "int i < capacity_bytes s div int (calcsize c)"
    using assms m by (simp add: array_inv_def)
  then have "int i * int (calcsize c) + int (calcsize c) \<le> capacity_bytes s"
    by (rule less_div_imp [OF e])
  moreover have "int (length (disk s)) = int HEADER_SIZE + capacity_bytes s"
    using assms m by (simp add: array_inv_def)
  ultimately have "int (HEADER_SIZE + i * calcsize c + calcsize c) \<le> int (length (disk s))"
    by simp
  then show "HEADER_SIZE + i * calcsize c + calcsize c \<le> length (disk s)"
    by (simp only: of_nat_le_iff)
qed

lemma disk_below_need:
  assumes "array_inv c s" "capacity s < int m"
  shows "length (disk s) < HEADER_SIZE + m * calcsize c"
proof (cases "mapped s")
  case True
  have e: "0 < int (calcsize c)" using assms by (simp add: array_inv_def)
  have "capacity_bytes s div int (calcsize c) < int m"
    using assms True by (simp add: array_inv_def)
  then have "capacity_bytes s < int m * int (calcsize c)"
    by (rule div_less_imp [OF e])
  moreover have "int (length (disk s)) = int HEADER_SIZE + capacity_bytes s"
    using assms True by (simp add: array_inv_def)
  ultimately have "int (length (disk s)) < int (HEADER_SIZE + m * calcsize c)"
    by simp
  then show ?thesis by (simp only: of_nat_less_iff)
next
  case False
  then show ?thesis using assms by (simp add: array_inv_def HEADER_SIZE_def)
qed

lemma grown_disk:
  assumes "array_inv c s" "capacity s < int m"
  shows "disk (grown c m s) = disk s @ replicate (alloc_size (calcsize c) m - length (disk s)) 0"
proof -
  have "length (disk s) \<le> alloc_size (calcsize c) m"
    using disk_below_need [OF assms] alloc_size_ge [of m "calcsize c"]
    by (simp add: HEADER_SIZE_def)
  then show ?thesis by (simp add: grown_def truncate_extend)
qed

section \<open>Writes through the mapping\<close>

lemma same_shape_refl [simp]: "same_shape s s"
  by (simp add: same_shape_def)

lemma same_shape_trans: "same_shape s t \<Longrightarrow> same_shape t u \<Longrightarrow> same_shape s u"
  by (cases s, cases t, cases u) (simp add: same_shape_def)

lemma same_shape_fields:
  "same_shape s t \<Longrightarrow>
   len t = len s \<and> capacity t = capacity s \<and> capacity_bytes t = capacity_bytes s
   \<and> mapped t = mapped s \<and> file_open t = file_open s \<and> length (disk t) = length (disk s)"
  by (cases s, cases t) (simp add: same_shape_def)

lemma mmap_set_shape: "same_shape s (snd (mmap_set s a (a + k) data))"
  by (cases s) (auto simp: mmap_set_def same_shape_def min_def split: if_splits)

lemma mmap_set_ok:
  "mapped s \<Longrightarrow> a + length data \<le> length (disk s) \<Longrightarrow>
   mmap_set s a (a + length data) data
     = (Inr (), s\<lparr>disk := take a (disk s) @ data @ drop (a + length data) (disk s)\<rparr>)"
  by (simp add: mmap_set_def min_def)

lemma write_values_shape: "same_shape s (snd (write_values c off vs s))"
proof (induction vs arbitrary: off s)
  case Nil
  then show ?case by simp
next
  case (Cons v vs)
  show ?case
  proof (cases "pack_value c v")
    case (Inl e)
    then show ?thesis by simp
  next
    case (Inr bs)
    obtain r t where m: "mmap_set s off (off + calcsize c) bs = (r, t)"
      by (cases "mmap_set s off (off + calcsize c) bs")
    have st: "same_shape s t"
      using mmap_set_shape [of s off "calcsize c" bs] m by simp
    show ?thesis
    proof (cases r)
      case (Inl e)
      then show ?thesis using Inr m st by simp
    next
      case r: (Inr u)
      have "same_shape t (snd (write_values c (off + calcsize c) vs t))"
        by (rule Cons.IH)
      then show ?thesis
        using Inr m r st by (simp add: same_shape_trans)
    qed
  qed
qed

lemma copy_chunks_shape: "same_shape s (snd (copy_chunks k src dst n s))"
proof (induction k arbitrary: dst s)
  case 0
  then show ?case by simp
next
  case (Suc k)
  show ?case
  proof (cases "mmap_get s src (src + n)")
    case (Inl e)
    then show ?thesis by simp
  next
    case (Inr data)
    obtain r t where m: "mmap_set s dst (dst + n) data = (r, t)"
      by (cases "mmap_set s dst (dst + n) data")
    have st: "same_shape s t"
      using mmap_set_shape [of s dst n data] m by simp
    show ?thesis
    proof (cases r)
      case (Inl e)
      then show ?thesis using Inr m st by simp
    next
      case r: (Inr u)
      have "same_shape t (snd (copy_chunks k src (dst + n) n t))"
        by (rule Suc.IH)
      then show ?thesis
        using Inr m r st by (simp add: same_shape_trans)
    qed
  qed
qed

lemma array_inv_shape:
  assumes "same_shape s t" "array_inv c s" "int n \<le> capacity s"
  shows "array_inv c (t\<lparr>len := n\<rparr>)"
  using same_shape_fields [OF assms(1)] assms(2,3)
  by (auto simp: array_inv_def)

lemma array_inv_shape':
  assumes "same_shape s t" "array_inv c s"
  shows "array_inv c t"
  using same_shape_fields [OF assms(1)] assms(2)
  by (auto simp: array_inv_def)

section \<open>The invariant under the mutating methods\<close>

text \<open>The instance once a method has made room for \<open>m\<close> elements.\<close>

lemma make_room:
  assumes "array_inv c s" "len s \<le> m"
  defines "t \<equiv> (if int m > capacity s then grown c m s else s)"
  shows "(if int m > capacity s then resize c (int m) s else (Inr (), s)) = (Inr (), t)"
    and "array_inv c t" and "int m \<le> capacity t" and "len t = len s"
    and "capacity s \<le> capacity t"
proof -
  have e: "0 < calcsize c" and f: "file_open s"
    using assms(1) by (simp_all add: array_inv_def)
  show "(if int m > capacity s then resize c (int m) s else (Inr (), s)) = (Inr (), t)"
    by (simp add: t_def resize_ok [OF e f])
  show "array_inv c t"
    using assms(1,2) by (simp add: t_def array_inv_grown [OF e f])
  show m: "int m \<le> capacity t"
    using grown_capacity [OF e, of m s] by (simp add: t_def)
  show "len t = len s"
    by (simp add: t_def)
  show "capacity s \<le> capacity t"
    using grown_capacity [OF e, of m s] by (simp add: t_def)
qed

lemma append_inv:
  assumes "array_inv c s"
  shows "array_inv c (snd (append c v s)) \<and> capacity s \<le> capacity (snd (append c v s))"
proof -
  define t where "t = (if int (len s + 1) > capacity s then grown c (len s + 1) s else s)"
  have r: "(if int (len s) = capacity s then resize c (int (len s) + 1) s else (Inr (), s))
             = (Inr (), t)"
    using make_room(1) [OF assms, of "len s + 1"] assms
    by (auto simp: array_inv_def t_def add.commute)
  have it: "array_inv c t" and ct: "int (len s + 1) \<le> capacity t" and lt: "len t = len s"
    and cc: "capacity s \<le> capacity t"
    unfolding t_def by (rule make_room [OF assms]; simp)+
  show ?thesis
  proof (cases "pack_value c v")
    case (Inl e)
    then show ?thesis using r it cc by (simp add: append_def)
  next
    case (Inr bs)
    define off where "off = HEADER_SIZE + len t * calcsize c"
    obtain res u where m: "mmap_set t off (off + calcsize c) bs = (res, u)"
      by (cases "mmap_set t off (off + calcsize c) bs")
    have st: "same_shape t u"
      using mmap_set_shape [of t off "calcsize c" bs] m by simp
    have cu: "capacity u = capacity t" and lu: "len u = len t"
      using same_shape_fields [OF st] by simp_all
    have iu: "array_inv c u" by (rule array_inv_shape' [OF st it])
    have iu': "array_inv c (u\<lparr>len := len s + 1\<rparr>)"
      by (rule array_inv_shape [OF st it ct])
    show ?thesis
      using r Inr m iu iu' cc cu lu lt
      by (cases res) (simp_all add: append_def off_def Let_def)
  qed
qed

lemma extend_inv:
  assumes "array_inv c s"
  shows "array_inv c (snd (extend c it s)) \<and> capacity s \<le> capacity (snd (extend c it s))"
proof (cases "to_list it")
  case None
  then show ?thesis using assms by (simp add: extend_def)
next
  case (Some vs)
  show ?thesis
  proof (cases "vs = []")
    case True
    then show ?thesis using assms Some by (simp add: extend_def)
  next
    case False
    define m where "m = len s + length vs"
    define t where "t = (if int m > capacity s then grown c m s else s)"
    have le: "len s \<le> m" by (simp add: m_def)
    have r: "(if int m > capacity s then resize c (int m) s else (Inr (), s)) = (Inr (), t)"
      unfolding t_def by (rule make_room(1) [OF assms le])
    have it: "array_inv c t" and ct: "int m \<le> capacity t" and lt: "len t = len s"
      and cc: "capacity s \<le> capacity t"
      unfolding t_def by (rule make_room [OF assms le])+
    obtain res u where w: "write_values c (HEADER_SIZE + len t * calcsize c) vs t = (res, u)"
      by (cases "write_values c (HEADER_SIZE + len t * calcsize c) vs t")
    have st: "same_shape t u"
      using write_values_shape [of t c "HEADER_SIZE + len t * calcsize c" vs] w by simp
    have cu: "capacity u = capacity t"
      using same_shape_fields [OF st] by simp
    have iu: "array_inv c u" by (rule array_inv_shape' [OF st it])
    have iu': "array_inv c (u\<lparr>len := m\<rparr>)"
      by (rule array_inv_shape [OF st it ct])
    show ?thesis
      using Some False r [unfolded m_def] w iu iu' cc cu
      by (cases res) (simp_all add: extend_def Let_def m_def)
  qed
qed

lemma iadd_inv:
  assumes "array_inv c s"
  shows "array_inv c (snd (iadd c it s)) \<and> capacity s \<le> capacity (snd (iadd c it s))"
proof -
  obtain res u where e: "extend c it s = (res, u)" by (cases "extend c it s")
  then show ?thesis
    using extend_inv [OF assms, of it] assms by (cases res) (simp_all add: iadd_def)
qed

lemma setitem_inv:
  assumes "array_inv c s"
  shows "array_inv c (snd (setitem c i v s)) \<and> capacity s \<le> capacity (snd (setitem c i v s))"
proof -
  have "same_shape s (snd (setitem c i v s))"
    using mmap_set_shape [of s _ "calcsize c"]
    by (simp add: setitem_def Let_def split: sum.splits)
  then show ?thesis
    using array_inv_shape' [OF _ assms] same_shape_fields by fastforce
qed

lemma imul_clear:
  "isinstance_int n \<Longrightarrow> int_of n = 0 \<Longrightarrow>
   imul c n s = (Inr Self, s\<lparr>len := 0, mapped := False,
                             disk := (if file_open s then [] else disk s),
                             capacity := 0, capacity_bytes := 0\<rparr>)"
  by (cases s) (simp add: imul_def truncate_def Let_def)

lemma imul_inv:
  assumes "array_inv c s"
  shows "array_inv c (snd (imul c n s))
         \<and> (\<not> (isinstance_int n \<and> int_of n = 0) \<longrightarrow> capacity s \<le> capacity (snd (imul c n s)))"
proof -
  consider (ni) "\<not> isinstance_int n \<or> int_of n < 0" | (zero) "isinstance_int n" "int_of n = 0"
    | (one) "isinstance_int n" "int_of n = 1" | (many) "isinstance_int n" "1 < int_of n"
    by (cases "int_of n" "0::int" rule: linorder_cases; cases "int_of n" "1::int" rule: linorder_cases) auto
  then show ?thesis
  proof cases
    case ni
    then show ?thesis using assms by (auto simp: imul_def)
  next
    case zero
    then show ?thesis using assms by (simp add: imul_clear array_inv_def)
  next
    case one
    then show ?thesis using assms by (simp add: imul_def)
  next
    case many
    define m where "m = len s * nat (int_of n)"
    define t where "t = (if int m > capacity s then grown c m s else s)"
    have "len s * 1 \<le> len s * nat (int_of n)"
      using many by (intro mult_le_mono2) simp
    then have le: "len s \<le> m" by (simp add: m_def)
    have r: "(if int m > capacity s then resize c (int m) s else (Inr (), s)) = (Inr (), t)"
      unfolding t_def by (rule make_room(1) [OF assms le])
    have it: "array_inv c t" and ct: "int m \<le> capacity t" and lt: "len t = len s"
      and cc: "capacity s \<le> capacity t"
      unfolding t_def by (rule make_room [OF assms le])+
    define k where "k = nat (int_of n - 1)"
    obtain res u where w: "copy_chunks k HEADER_SIZE (HEADER_SIZE + len s * calcsize c)
                             (len s * calcsize c) t = (res, u)"
      by (cases "copy_chunks k HEADER_SIZE (HEADER_SIZE + len s * calcsize c)
                   (len s * calcsize c) t")
    have st: "same_shape t u"
      using copy_chunks_shape [of t k HEADER_SIZE "HEADER_SIZE + len s * calcsize c"
          "len s * calcsize c"] w by simp
    have cu: "capacity u = capacity t"
      using same_shape_fields [OF st] by simp
    have iu: "array_inv c u" by (rule array_inv_shape' [OF st it])
    have iu': "array_inv c (u\<lparr>len := m\<rparr>)"
      by (rule array_inv_shape [OF st it ct])
    have nz: "int_of n \<noteq> 0" "\<not> int_of n < 0" using many by simp_all
    show ?thesis
      using many nz r [unfolded m_def] w [unfolded k_def] iu iu' cc cu
      by (cases res) (simp_all add: imul_def Let_def m_def)
  qed
qed

lemma after_inv:
  assumes "array_inv c s"
  shows "array_inv c (after c k s) \<and> (\<not> clears k \<longrightarrow> capacity s \<le> capacity (after c k s))"
proof (cases k)
  case (Append v)
  then show ?thesis using append_inv [OF assms, of v] by simp
next
  case (Extend vs)
  then show ?thesis using extend_inv [OF assms, of vs] by simp
next
  case (SetItem i v)
  then show ?thesis using setitem_inv [OF assms, of i v] by simp
next
  case (GetItem i)
  then show ?thesis using assms by simp
next
  case (IAdd vs)
  then show ?thesis using iadd_inv [OF assms, of vs] by simp
next
  case (IMul n)
  then show ?thesis using imul_inv [OF assms, of n] by simp
next
  case Flush
  then show ?thesis using assms by (simp add: flush_def)
qed

section \<open>Construction\<close>

lemma alloc_size_ge_chunk: "4096 \<le> alloc_size es m"
proof -
  have "4096 div 4096 \<le> (m * es + 32 + 4095) div (4096::nat)"
    by (rule div_le_mono) simp
  then show ?thesis by (simp add: alloc_size_def)
qed

lemma pack_header_length:
  "pack_header MAGIC v n (ljust 8 (take 8 bs)) e L = Some h \<Longrightarrow> length h = 32"
  by (auto simp: pack_header_def ljust_def split: if_splits)

lemma write_header_shape:
  assumes "write_header c s = (Inr u, t)" "32 \<le> length (disk s)"
  shows "same_shape s t"
proof -
  from assms(1) obtain h where
    h: "pack_header MAGIC HEADER_VERSION (length (dtype c))
          (ljust 8 (take 8 (encode_ascii (dtype c)))) (calcsize c) (len s) = Some h"
    and t: "t = s\<lparr>disk := h @ drop (length h) (disk s)\<rparr>"
    by (auto simp: write_header_def Let_def split: if_splits option.splits)
  have "length h = 32" by (rule pack_header_length [OF h])
  then show ?thesis using t assms(2) by (simp add: same_shape_def)
qed

lemma init_fresh:
  assumes "CHR ''w'' \<in> set mode \<or> existing = None" "0 \<le> hint" "init c existing mode hint = Inr s"
  shows "array_inv c s" "len s = 0" "mapped s"
proof -
  have e: "0 < calcsize c"
  proof (rule ccontr)
    assume "\<not> 0 < calcsize c"
    then show False using assms(1,3)
      by (auto simp: init_def allocate_capacity_def Let_def)
  qed
  define t where "t = grown c (nat hint) (blank [])"
  have a: "allocate_capacity c hint (blank []) = (Inr (), t\<lparr>mapped := False\<rparr>)"
    using assms(2) e by (simp add: allocate_capacity_ok blank_def t_def grown_def)
  from assms(1,3) a obtain u w where w: "write_header c (t\<lparr>mapped := False\<rparr>) = (Inr u, w)"
    and s: "s = (if capacity_bytes w > 0 then w\<lparr>mapped := True\<rparr> else w)"
    by (auto simp: init_def Let_def blank_def split: prod.splits sum.splits)
  have "32 \<le> length (disk (t\<lparr>mapped := False\<rparr>))"
    using alloc_size_ge_chunk [of "calcsize c" "nat hint"] by (simp add: t_def)
  then have sh: "same_shape (t\<lparr>mapped := False\<rparr>) w"
    by (rule write_header_shape [OF w])
  have cb: "capacity_bytes t > 0"
    using alloc_size_ge_chunk [of "calcsize c" "nat hint"] by (simp add: t_def grown_def)
  have w_eq: "w = t\<lparr>mapped := False, disk := disk w\<rparr>"
    and lw: "length (disk w) = length (disk t)"
    using sh by (simp_all add: same_shape_def)
  have "capacity_bytes w = capacity_bytes t"
    by (subst w_eq) simp
  then have s_eq: "s = w\<lparr>mapped := True\<rparr>"
    using s cb by simp
  have "s = t\<lparr>disk := disk w\<rparr>"
    by (subst s_eq, subst w_eq) (simp add: t_def grown_def)
  moreover have "disk s = disk w"
    by (simp add: s_eq)
  ultimately have "same_shape t s"
    using lw by (simp add: same_shape_def)
  moreover have "array_inv c t"
    unfolding t_def by (rule array_inv_grown [OF e]) (simp_all add: blank_def)
  ultimately show "array_inv c s" by (rule array_inv_shape')
  show "len s = 0" "mapped s"
    using same_shape_fields [OF \<open>same_shape t s\<close>] by (simp_all add: t_def blank_def)
qed

lemma read_header_True:
  assumes "read_header c s = (Inr True, t)"
  shows "t = s\<lparr>len := stored_length (disk s)\<rparr>" "32 \<le> length (disk s)" "file_open s"
  using assms
  by (auto simp: read_header_def Let_def unpack_header_def stored_length_def HEADER_SIZE_def
      split: if_splits option.splits)

lemma elements_for_int:
  "0 < es \<Longrightarrow> int (elements_for es n) = (int n + int es - 1) div int es"
  by (simp add: elements_for_def pos_imp_zdiv_nonneg_iff)

lemma elements_for_covers: "0 < es \<Longrightarrow> n \<le> elements_for es n * es"
proof -
  assume es: "0 < es"
  define y where "y = int n + int es - 1"
  define q where "q = y div int es"
  define r where "r = y mod int es"
  have "y = q * int es + r" by (simp add: q_def r_def)
  moreover have "r < int es" using es by (simp add: r_def)
  ultimately have "int n \<le> q * int es" by (simp add: y_def)
  then have "int n \<le> int (elements_for es n * es)"
    using elements_for_int [OF es, of n] by (simp add: q_def y_def)
  then show ?thesis by (simp only: of_nat_le_iff)
qed

lemma elements_for_ge: "0 < es \<Longrightarrow> L * es \<le> n \<Longrightarrow> L \<le> elements_for es n"
proof -
  assume es: "0 < es" and le: "L * es \<le> n"
  have "int L * int es \<le> int n + int es - 1"
    using le es by (metis (no_types) add_increasing2 diff_ge_0_iff_ge of_nat_0_less_iff
        of_nat_le_iff of_nat_mult add_diff_eq int_one_le_iff_zero_less)
  then have "int L * int es div int es \<le> (int n + int es - 1) div int es"
    by (rule zdiv_mono1) (use es in simp)
  then have "int L \<le> int (elements_for es n)"
    using es by (simp add: elements_for_int)
  then show ?thesis by (simp only: of_nat_le_iff)
qed

lemma init_existing:
  assumes "CHR ''w'' \<notin> set mode" "init c (Some d) mode hint = Inr s"
  shows "s = grown c (elements_for (calcsize c) (length d - 32)) ((blank d)\<lparr>len := stored_length d\<rparr>)"
    and "32 \<le> length d" and "0 < calcsize c"
proof -
  from assms obtain t where rh: "read_header c (blank d) = (Inr True, t)"
    by (auto simp: init_def Let_def blank_def split: prod.splits sum.splits if_splits)
  have t: "t = (blank d)\<lparr>len := stored_length d\<rparr>" and d: "32 \<le> length d"
    using read_header_True [OF rh] by (simp_all add: blank_def)
  show e: "0 < calcsize c"
  proof (rule ccontr)
    assume "\<not> 0 < calcsize c"
    then show False using assms rh
      by (auto simp: init_def Let_def blank_def split: prod.splits sum.splits if_splits)
  qed
  show "32 \<le> length d" by (rule d)
  define M where "M = elements_for (calcsize c) (length d - 32)"
  have m: "(int (length d) - int HEADER_SIZE + int (calcsize c) - 1) div int (calcsize c) = int M"
    using d e by (simp add: M_def elements_for_int HEADER_SIZE_def of_nat_diff)
  have a: "allocate_capacity c (int M) t = (Inr (), (grown c M t)\<lparr>mapped := False\<rparr>)"
    using e by (simp add: allocate_capacity_ok t blank_def grown_def)
  have cb: "0 < capacity_bytes (grown c M t)"
    using alloc_size_ge_chunk [of "calcsize c" M] by (simp add: grown_def)
  have dt: "disk t = d" by (simp add: t blank_def)
  have "init c (Some d) mode hint = Inr (grown c M t)"
    using assms(1) rh e a cb
    by (simp add: init_def Let_def blank_def [symmetric] dt m grown_def)
  then show "s = grown c (elements_for (calcsize c) (length d - 32))
                   ((blank d)\<lparr>len := stored_length d\<rparr>)"
    using assms(2) by (simp add: M_def t)
qed

lemma init_existing_inv:
  assumes "CHR ''w'' \<notin> set mode" "init c (Some d) mode hint = Inr s"
    and "HEADER_SIZE + stored_length d * calcsize c \<le> length d"
  shows "array_inv c s"
proof -
  have e: "0 < calcsize c" by (rule init_existing(3) [OF assms(1,2)])
  have "stored_length d * calcsize c \<le> length d - 32"
    using assms(3) by (simp add: HEADER_SIZE_def)
  then have "stored_length d \<le> elements_for (calcsize c) (length d - 32)"
    by (rule elements_for_ge [OF e])
  then show ?thesis
    unfolding init_existing(1) [OF assms(1,2)]
    by (intro array_inv_grown [OF e]) (simp_all add: blank_def)
qed

section \<open>The bytes of the elements\<close>

lemma elem_bytes_length: "array_inv c s \<Longrightarrow> length (elem_bytes c s) = len s * calcsize c"
proof (cases "len s")
  case 0
  then show ?thesis by (simp add: elem_bytes_def)
next
  case (Suc n)
  assume i: "array_inv c s"
  have "int n < capacity s" using i Suc by (simp add: array_inv_def)
  from slot_fits(2) [OF i this] show ?thesis
    using Suc by (simp add: elem_bytes_def HEADER_SIZE_def)
qed

lemma put_data:
  assumes "32 + n \<le> length d" 
  shows "take (n + length bs) (drop 32 (take (32 + n) d @ bs @ r)) = take n (drop 32 d) @ bs"
  using assms by (simp add: drop_take)

lemma append_ok:
  assumes i: "array_inv c s" and p: "pack c v = Some bs" and l: "length bs = calcsize c"
  shows "\<exists>t. append c v s = (Inr (), t) \<and> array_inv c t \<and> len t = len s + 1
             \<and> elem_bytes c t = elem_bytes c s @ bs"
proof -
  define t where "t = (if int (len s + 1) > capacity s then grown c (len s + 1) s else s)"
  have r: "(if int (len s) = capacity s then resize c (int (len s) + 1) s else (Inr (), s))
             = (Inr (), t)"
    using make_room(1) [OF i, of "len s + 1"] i
    by (auto simp: array_inv_def t_def add.commute)
  have it: "array_inv c t" and ct: "int (len s + 1) \<le> capacity t" and lt: "len t = len s"
    unfolding t_def by (rule make_room [OF i]; simp)+
  have "int (len s) < capacity t" using ct by simp
  from slot_fits [OF it this]
  have mt: "mapped t" and fit: "HEADER_SIZE + len s * calcsize c + calcsize c \<le> length (disk t)"
    by simp_all
  define off where "off = HEADER_SIZE + len s * calcsize c"
  define u where "u = t\<lparr>disk := take off (disk t) @ bs @ drop (off + length bs) (disk t)\<rparr>"
  have ms: "mmap_set t off (off + calcsize c) bs = (Inr (), u)"
    using mmap_set_ok [OF mt, of off bs] fit l by (simp add: off_def u_def)
  have su: "same_shape t u"
    using mmap_set_shape [of t off "calcsize c" bs] ms by simp
  have lu: "len u = len s" by (simp add: u_def lt)
  have a: "append c v s = (Inr (), u\<lparr>len := len s + 1\<rparr>)"
    using r p ms lt lu by (simp add: append_def pack_value_def Let_def off_def)
  have iu: "array_inv c (u\<lparr>len := len s + 1\<rparr>)"
    by (rule array_inv_shape [OF su it ct])
  have pre: "take (len s * calcsize c) (drop 32 (disk t)) = elem_bytes c s"
  proof (cases "int (len s + 1) > capacity s")
    case True
    then have "capacity s < int (len s + 1)" by simp
    from grown_disk [OF i this] have "disk t = disk s @ replicate (alloc_size (calcsize c) (len s + 1) - length (disk s)) 0"
      using True by (simp add: t_def)
    moreover have "length (drop 32 (disk s)) \<ge> len s * calcsize c \<or> len s = 0"
      using elem_bytes_length [OF i] by (cases "len s") (simp_all add: elem_bytes_def HEADER_SIZE_def)
    ultimately show ?thesis
      by (auto simp: elem_bytes_def HEADER_SIZE_def)
  next
    case False
    then show ?thesis by (simp add: t_def elem_bytes_def HEADER_SIZE_def)
  qed
  have "elem_bytes c (u\<lparr>len := len s + 1\<rparr>)
          = take (len s * calcsize c + length bs)
              (drop 32 (take (32 + len s * calcsize c) (disk t) @ bs
                 @ drop (32 + len s * calcsize c + length bs) (disk t)))"
  proof -
    have du: "disk (u\<lparr>len := len s + 1\<rparr>)
                = take off (disk t) @ bs @ drop (off + length bs) (disk t)"
      by (simp add: u_def)
    have lu': "len (u\<lparr>len := len s + 1\<rparr>) * calcsize c = len s * calcsize c + length bs"
      by (simp add: l)
    show ?thesis
      unfolding elem_bytes_def du lu' off_def HEADER_SIZE_def by (rule refl)
  qed
  also have "\<dots> = take (len s * calcsize c) (drop 32 (disk t)) @ bs"
    by (rule put_data) (use fit in \<open>simp add: HEADER_SIZE_def\<close>)
  also have "\<dots> = elem_bytes c s @ bs"
    by (simp only: pre)
  finally show ?thesis using a iu by simp
qed

lemma append_each_ok:
  assumes "array_inv c s" "\<forall>v\<in>set vs. encodes c v"
  shows "\<exists>t. append_each c vs s = (Inr (), t) \<and> array_inv c t \<and> len t = len s + length vs
             \<and> elem_bytes c t = elem_bytes c s @ concat (map (packed c) vs)"
  using assms
proof (induction vs arbitrary: s)
  case Nil
  then show ?case by simp
next
  case (Cons v vs)
  from Cons.prems(2) obtain bs where p: "pack c v = Some bs" and l: "length bs = calcsize c"
    by (auto simp: encodes_def split: option.splits)
  from append_ok [OF Cons.prems(1) p l] obtain t where
    t: "append c v s = (Inr (), t)" "array_inv c t" "len t = len s + 1"
       "elem_bytes c t = elem_bytes c s @ bs"
    by blast
  from Cons.IH [OF t(2)] Cons.prems(2) obtain u where
    u: "append_each c vs t = (Inr (), u)" "array_inv c u" "len u = len t + length vs"
       "elem_bytes c u = elem_bytes c t @ concat (map (packed c) vs)"
    by auto
  have pk: "packed c v = bs" using p by (simp add: packed_def)
  show ?case using t u pk by simp
qed

section \<open>Closing, reopening and reading\<close>

lemma close_ok:
  assumes "file_open s" "header_ok c (len s)"
  shows "close c s = (Inr (), s\<lparr>mapped := False, file_open := False,
                               disk := header_of c (len s) @ elem_bytes c s\<rparr>)"
proof -
  define t where "t = (if mapped s then s\<lparr>mapped := False\<rparr> else s)"
  have t: "t = s\<lparr>mapped := False\<rparr>" by (cases s) (simp add: t_def)
  have w: "write_header c t = (Inr (), t\<lparr>disk := header_of c (len s) @ drop 32 (disk s)\<rparr>)"
    using write_header_ok [of c t] assms by (simp add: t)
  have "truncate (32 + len s * calcsize c) (header_of c (len s) @ drop 32 (disk s))
          = header_of c (len s) @ elem_bytes c s"
    if "32 + len s * calcsize c < 32 + length (drop 32 (disk s))"
    using that by (simp add: truncate_def elem_bytes_def HEADER_SIZE_def)
  moreover have "header_of c (len s) @ drop 32 (disk s) = header_of c (len s) @ elem_bytes c s"
    if "\<not> 32 + len s * calcsize c < 32 + length (drop 32 (disk s))"
    using that by (simp add: elem_bytes_def HEADER_SIZE_def)
  ultimately show ?thesis
    using assms(1) w
    by (simp add: close_def Let_def t_def [symmetric] HEADER_SIZE_def) (simp add: t)
qed

lemma init_existing_forward:
  assumes "CHR ''w'' \<notin> set mode" "read_header c (blank d) = (Inr True, t)" "0 < calcsize c"
  shows "init c (Some d) mode hint = Inr (grown c (elements_for (calcsize c) (length d - 32)) t)"
proof -
  have t: "t = (blank d)\<lparr>len := stored_length d\<rparr>" and d: "32 \<le> length d"
    using read_header_True [OF assms(2)] by (simp_all add: blank_def)
  define M where "M = elements_for (calcsize c) (length d - 32)"
  have m: "(int (length d) - int HEADER_SIZE + int (calcsize c) - 1) div int (calcsize c) = int M"
    using d assms(3) by (simp add: M_def elements_for_int HEADER_SIZE_def of_nat_diff)
  have a: "allocate_capacity c (int M) t = (Inr (), (grown c M t)\<lparr>mapped := False\<rparr>)"
    using assms(3) by (simp add: allocate_capacity_ok t blank_def grown_def)
  have cb: "0 < capacity_bytes (grown c M t)"
    using alloc_size_ge_chunk [of "calcsize c" M] by (simp add: grown_def)
  have dt: "disk t = d" by (simp add: t blank_def)
  show ?thesis
    using assms a cb
    by (simp add: init_def Let_def blank_def [symmetric] dt m grown_def M_def [symmetric])
qed

lemma reopen_ok:
  assumes "CHR ''w'' \<notin> set mode" "header_ok c L" "length (dtype c) \<le> 8" "0 < calcsize c"
    and "length bs = L * calcsize c"
  shows "\<exists>s. init c (Some (header_of c L @ bs)) mode hint = Inr s \<and> array_inv c s
             \<and> len s = L \<and> elem_bytes c s = bs"
proof -
  define d where "d = header_of c L @ bs"
  define t where "t = (blank d)\<lparr>len := L\<rparr>"
  define M where "M = elements_for (calcsize c) (length d - 32)"
  have rh: "read_header c (blank d) = (Inr True, t)"
    unfolding t_def by (rule read_header_ok [OF assms(2,3)]) (simp_all add: blank_def d_def)
  have i: "init c (Some d) mode hint = Inr (grown c M t)"
    unfolding M_def by (rule init_existing_forward [OF assms(1) rh assms(4)])
  have "L * calcsize c \<le> length d - 32" using assms(5) by (simp add: d_def)
  then have LM: "L \<le> M" unfolding M_def by (rule elements_for_ge [OF assms(4)])
  have inv: "array_inv c (grown c M t)"
    by (rule array_inv_grown [OF assms(4)]) (simp_all add: t_def blank_def LM)
  have "length d - 32 \<le> M * calcsize c"
    unfolding M_def by (rule elements_for_covers [OF assms(4)])
  then have "length d \<le> alloc_size (calcsize c) M"
    using alloc_size_ge [of M "calcsize c"] by linarith
  then have "disk (grown c M t) = d @ replicate (alloc_size (calcsize c) M - length d) 0"
    by (simp add: grown_def truncate_extend t_def blank_def)
  then have "elem_bytes c (grown c M t) = bs"
    using assms(5) by (simp add: elem_bytes_def d_def HEADER_SIZE_def t_def)
  then show ?thesis using i inv by (simp add: d_def t_def)
qed

lemma concat_chunk:
  "\<forall>b\<in>set bss. length b = e \<Longrightarrow> i < length bss \<Longrightarrow> take e (drop (i * e) (concat bss)) = bss ! i"
proof (induction bss arbitrary: i)
  case Nil
  then show ?case by simp
next
  case (Cons b bss)
  show ?case
  proof (cases i)
    case 0
    then show ?thesis using Cons.prems by simp
  next
    case (Suc j)
    then have "take e (drop (j * e) (concat bss)) = bss ! j"
      using Cons.prems by (intro Cons.IH) simp_all
    then show ?thesis using Cons.prems Suc by simp
  qed
qed

lemma getitem_ok:
  assumes "array_inv c s" "elem_bytes c s = concat bss" "\<forall>b\<in>set bss. length b = calcsize c"
    and "length bss = len s" "i < len s"
  shows "getitem c (PInt (int i)) s
           = (case unpack c (bss ! i) of None \<Rightarrow> Inl StructError | Some v \<Rightarrow> Inr v)"
proof -
  have "int (len s - 1) < capacity s" using assms(1,5) by (simp add: array_inv_def)
  from slot_fits(1) [OF assms(1) this] have m: "mapped s" .
  have "(i + 1) * calcsize c \<le> len s * calcsize c"
    using assms(5) by (intro mult_le_mono1) simp
  then have le: "i * calcsize c + calcsize c \<le> len s * calcsize c" by simp
  have "take (calcsize c) (drop (HEADER_SIZE + i * calcsize c) (disk s))
          = take (calcsize c) (drop (i * calcsize c) (drop HEADER_SIZE (disk s)))"
    by (simp add: add.commute)
  also have "\<dots> = take (calcsize c) (drop (i * calcsize c) (elem_bytes c s))"
    using le by (simp add: elem_bytes_def drop_take min_def)
  also have "\<dots> = bss ! i"
    unfolding assms(2) by (rule concat_chunk [OF assms(3)]) (simp add: assms(4,5))
  finally have "mmap_get s (HEADER_SIZE + i * calcsize c) (HEADER_SIZE + i * calcsize c + calcsize c)
                  = Inr (bss ! i)"
    using m by (simp add: mmap_get_def)
  then show ?thesis
    using assms(5) m by (simp add: getitem_def validate_index_def Let_def)
qed

lemma init_fresh_ok:
  assumes "CHR ''w'' \<in> set mode \<or> existing = None" "0 \<le> hint" "0 < calcsize c" "header_ok c 0"
  shows "\<exists>s. init c existing mode hint = Inr s"
proof -
  define t where "t = (grown c (nat hint) (blank []))\<lparr>mapped := False\<rparr>"
  have a: "allocate_capacity c hint (blank []) = (Inr (), t)"
    using assms(2,3) by (simp add: allocate_capacity_ok blank_def t_def grown_def)
  have "file_open t" "len t = 0" by (simp_all add: t_def blank_def)
  then have "\<exists>w. write_header c t = (Inr (), w)"
    using write_header_ok [of c t] assms(4) by simp
  then show ?thesis
    using assms(1) a by (auto simp: init_def Let_def blank_def)
qed

lemma iter_ok:
  assumes "array_inv c s" "elem_bytes c s = concat (map (packed c) vs)"
    and "\<forall>v\<in>set vs. encodes c v" "len s = length vs"
  shows "iter c s = map Inr vs"
proof -
  have pk: "pack c v = Some (packed c v) \<and> length (packed c v) = calcsize c
            \<and> unpack c (packed c v) = Some v" if "v \<in> set vs" for v
    using assms(3) that by (auto simp: encodes_def packed_def split: option.splits)
  have "getitem c (PInt (int i)) s = Inr (vs ! i)" if "i < length vs" for i
  proof -
    have "getitem c (PInt (int i)) s
            = (case unpack c (map (packed c) vs ! i) of
                 None \<Rightarrow> Inl StructError | Some v \<Rightarrow> Inr v)"
      by (rule getitem_ok [OF assms(1,2)]) (use pk that assms(4) in auto)
    then show ?thesis using pk [of "vs ! i"] that by simp
  qed
  then show ?thesis
    by (auto simp: iter_def assms(4) intro: nth_equalityI)
qed

section \<open>The round trip through a file\<close>

lemma roundtrip_steps:
  assumes "is_ascii (dtype c)" "length (dtype c) < 2 ^ 8" "0 < calcsize c" "calcsize c < 2 ^ 32"
    and "length vs < 2 ^ 64" "0 \<le> hint" "\<forall>v\<in>set vs. encodes c v"
  shows "roundtrip c hint vs
           = init c (Some (header_of c (length vs) @ concat (map (packed c) vs))) ''r+b'' 0"
proof -
  have h0: "header_ok c 0" and hn: "header_ok c (length vs)"
    using assms by (simp_all add: header_ok_def)
  from init_fresh_ok [OF _ assms(6,3) h0, of "''w+b''" None]
  obtain s1 where s1: "init c None ''w+b'' hint = Inr s1" by auto
  have i1: "array_inv c s1" and l1: "len s1 = 0"
    using init_fresh [OF _ assms(6) s1] by simp_all
  from append_each_ok [OF i1 assms(7)] obtain s2 where
    s2: "append_each c vs s1 = (Inr (), s2)" and i2: "array_inv c s2"
    and l2: "len s2 = length vs"
    and d2: "elem_bytes c s2 = elem_bytes c s1 @ concat (map (packed c) vs)"
    using l1 by auto
  have e1: "elem_bytes c s1 = []" by (simp add: elem_bytes_def l1)
  have f2: "file_open s2" using i2 by (simp add: array_inv_def)
  have cl: "close c s2 = (Inr (), s2\<lparr>mapped := False, file_open := False,
              disk := header_of c (length vs) @ concat (map (packed c) vs)\<rparr>)"
    using close_ok [OF f2, of c] hn by (simp add: l2 d2 e1)
  show ?thesis
    by (simp add: roundtrip_def s1 s2 cl)
qed

lemma packed_lengths:
  assumes "\<forall>v\<in>set vs. encodes c v"
  shows "length (concat (map (packed c) vs)) = length vs * calcsize c"
  using assms
  by (induction vs) (auto simp: encodes_def packed_def split: option.splits)

lemma unpack_header_of_cut:
  "header_ok c L \<Longrightarrow>
   unpack_header (header_of c L) =
     (MAGIC, HEADER_VERSION, length (dtype c), ljust 8 (take 8 (encode_ascii (dtype c))),
      calcsize c, L)"
proof -
  assume ok: "header_ok c L"
  have l8: "length (ljust 8 (take 8 (encode_ascii (dtype c)))) = 8"
    by (simp add: length_ljust)
  have v: "le_nat (le_bytes 2 HEADER_VERSION) = HEADER_VERSION"
    by (rule le_nat_le_bytes) (simp add: HEADER_VERSION_def)
  have d: "le_nat (le_bytes 1 (length (dtype c))) = length (dtype c)"
    by (rule le_nat_le_bytes) (use ok in \<open>simp add: header_ok_def\<close>)
  have e: "le_nat (le_bytes 4 (calcsize c)) = calcsize c"
    by (rule le_nat_le_bytes) (use ok in \<open>simp add: header_ok_def\<close>)
  have n: "le_nat (le_bytes 8 L) = L"
    by (rule le_nat_le_bytes) (use ok in \<open>simp add: header_ok_def\<close>)
  have u: "unat (word_of_nat (length (dtype c)) :: byte) = length (dtype c)"
    using ok by (simp add: header_ok_def unat_of_nat)
  show ?thesis
    using l8 by (simp add: unpack_header_def header_of_def v e n u)
qed

lemma read_header_long_dtype:
  assumes "header_ok c L" "8 < length (dtype c)" "file_open s"
    and "take 32 (disk s) = header_of c L"
  shows "read_header c s = (Inl ValueError, s)"
proof -
  have l: "length (take 32 (disk s)) = 32"
    using assms(4) by simp
  have a: "is_ascii (take 8 (dtype c))"
    using assms(1) by (auto simp: header_ok_def is_ascii_def list_all_iff dest: in_set_takeD)
  have "take (length (dtype c)) (ljust 8 (take 8 (encode_ascii (dtype c))))
          = encode_ascii (take 8 (dtype c))"
    using assms(2) by (simp add: ljust_def encode_ascii_def take_map)
  then have d: "decode_ascii (take (length (dtype c)) (ljust 8 (take 8 (encode_ascii (dtype c)))))
                  = Some (take 8 (dtype c))"
    using decode_encode_ascii [OF a] by simp
  have ne: "take 8 (dtype c) \<noteq> dtype c"
  proof
    assume "take 8 (dtype c) = dtype c"
    then have "length (take 8 (dtype c)) = length (dtype c)" by simp
    then show False using assms(2) by simp
  qed
  show ?thesis
    using assms(3) l unpack_header_of_cut [OF assms(1)] d ne
    by (simp add: read_header_def HEADER_SIZE_def Let_def assms(4) del: length_take)
qed

lemma roundtrip_long_dtype:
  assumes "is_ascii (dtype c)" "8 < length (dtype c)" "length (dtype c) < 2 ^ 8"
    and "0 < calcsize c" "calcsize c < 2 ^ 32" "length vs < 2 ^ 64" "0 \<le> hint"
    and "\<forall>v\<in>set vs. encodes c v"
  shows "roundtrip c hint vs = Inl ValueError"
proof -
  have hn: "header_ok c (length vs)"
    using assms by (simp add: header_ok_def)
  define d where "d = header_of c (length vs) @ concat (map (packed c) vs)"
  have "read_header c (blank d) = (Inl ValueError, blank d)"
    by (rule read_header_long_dtype [OF hn assms(2)]) (simp_all add: blank_def d_def)
  then have "init c (Some d) ''r+b'' 0 = Inl ValueError"
    by (simp add: init_def Let_def blank_def)
  then show ?thesis
    using roundtrip_steps [OF assms(1,3,4,5,6,7,8)] by (simp add: d_def)
qed

section \<open>Facts about the concrete encodings\<close>

lemma le_bytes_numeral:
  "le_bytes (numeral k) n = word_of_nat n # le_bytes (pred_numeral k) (n div 256)"
  by (simp only: numeral_eq_Suc [of k] le_bytes.simps)

lemma replicate_numeral: "replicate (numeral k) x = x # replicate (pred_numeral k) x"
  by (simp only: numeral_eq_Suc [of k] replicate.simps)

lemma encodes_5: "encodes padded_int8 (PInt 5)"
  by (simp add: encodes_def padded_int8_def int_codec_def le_bytes_numeral replicate_numeral)

lemma int32_fields:
  "is_ascii (dtype int32)" "length (dtype int32) = 2" "calcsize int32 = 4"
  by (simp_all add: int32_def int_codec_def is_ascii_def)

lemma int32_encodes:
  "- 2147483648 \<le> i \<Longrightarrow> i < 2147483648 \<Longrightarrow> encodes int32 (PInt i)"
proof -
  assume lo: "- 2147483648 \<le> i" and hi: "i < 2147483648"
  define n where "n = nat (i mod 2 ^ 32)"
  have n: "n < 256 ^ 4" using lo hi by (simp add: n_def nat_less_iff)
  have r: "le_nat (le_bytes 4 n) = n"
    by (rule le_nat_le_bytes [OF n])
  have dec: "(2147483648 \<le> i mod 4294967296 \<longrightarrow> i mod 4294967296 - 4294967296 = i)
             \<and> (\<not> 2147483648 \<le> i mod 4294967296 \<longrightarrow> i mod 4294967296 = i)"
  proof (cases "0 \<le> i")
    case True
    then have "i mod 4294967296 = i" using hi by simp
    then show ?thesis using True hi by simp
  next
    case False
    then have "i mod 4294967296 = i + 4294967296"
      using lo mod_pos_pos_trivial [of "i + 4294967296" 4294967296] by simp
    then show ?thesis using False lo by simp
  qed
  show ?thesis
    using lo hi r dec
    by (simp add: encodes_def int32_def int_codec_def n_def Let_def)
qed

section \<open>The sample instances\<close>

lemma sample_facts:
  "array_inv int32 sample" "len sample = 3"
  "elem_bytes int32 sample = concat (map (packed int32) [PInt 10, PInt 20, PInt 30])"
proof -
  have h: "header_ok int32 0" by (simp add: header_ok_def int32_fields)
  from init_fresh_ok [OF _ _ _ h, of "''w+b''" None 0]
  obtain s where s: "init int32 None ''w+b'' 0 = Inr s"
    by (auto simp: int32_fields)
  have i: "array_inv int32 s" and l: "len s = 0"
    using init_fresh [OF _ _ s] by simp_all
  have e: "\<forall>v\<in>set [PInt 10, PInt 20, PInt 30]. encodes int32 v"
    by (simp add: int32_encodes)
  from append_each_ok [OF i e] obtain t where
    t: "append_each int32 [PInt 10, PInt 20, PInt 30] s = (Inr (), t)" "array_inv int32 t"
       "len t = len s + length [PInt 10, PInt 20, PInt 30]"
       "elem_bytes int32 t = elem_bytes int32 s @ concat (map (packed int32) [PInt 10, PInt 20, PInt 30])"
    by blast
  have st: "sample = t" by (simp only: sample_def s t(1) sum.case snd_conv)
  show "array_inv int32 sample" by (simp add: st t(2))
  show "len sample = 3" using t(3) l by (simp add: st)
  show "elem_bytes int32 sample = concat (map (packed int32) [PInt 10, PInt 20, PInt 30])"
    using t(4) l unfolding st by (simp add: elem_bytes_def l)
qed

lemma cleared_eq:
  "cleared = sample\<lparr>len := 0, mapped := False, disk := [], capacity := 0, capacity_bytes := 0\<rparr>"
  using sample_facts(1) by (simp add: cleared_def imul_clear array_inv_def)

lemma cleared_facts:
  "array_inv int32 cleared" "len cleared = 0" "capacity cleared = 0" "capacity_bytes cleared = 0"
  "\<not> mapped cleared" "disk cleared = []" "file_open cleared"
  using sample_facts(1) by (simp_all add: cleared_eq array_inv_def)

section \<open>A closed instance\<close>

lemma close_closed: "\<not> file_open s \<Longrightarrow> \<not> mapped s \<Longrightarrow> close c s = (Inr (), s)"
  by (simp add: close_def)

lemma close_result:
  assumes "close c s = (Inr u, t)"
  shows "\<not> file_open t" "\<not> mapped t"
proof -
  define s1 where "s1 = (if mapped s then s\<lparr>mapped := False\<rparr> else s)"
  have m: "\<not> mapped s1" by (simp add: s1_def)
  show "\<not> file_open t" "\<not> mapped t"
  proof -
    obtain r w where w: "write_header c s1 = (r, w)" by (cases "write_header c s1")
    have sw: "mapped w = mapped s1"
      using w by (auto simp: write_header_def Let_def split: if_splits option.splits)
    have "\<not> file_open t \<and> \<not> mapped t"
      using assms m w sw
      by (cases "file_open s1"; cases r)
         (auto simp: close_def Let_def s1_def [symmetric] split: if_splits)
    then show "\<not> file_open t" "\<not> mapped t" by simp_all
  qed
qed

lemma unmapped_empty:
  assumes "array_inv c s" "capacity_bytes s = 0"
  shows "\<not> mapped s" "len s = 0"
proof -
  show m: "\<not> mapped s"
  proof
    assume "mapped s"
    then have l: "int (length (disk s)) = int HEADER_SIZE + capacity_bytes s"
      and d: "CHUNK_SIZE_BYTES dvd int (length (disk s))"
      using assms(1) by (auto simp: array_inv_def)
    from d show False
      unfolding l assms(2) by (simp add: HEADER_SIZE_def CHUNK_SIZE_BYTES_def)
  qed
  show "len s = 0" using assms m by (simp add: array_inv_def)
qed

section \<open>File sizes and further instances\<close>

lemma sized_inv: "array_inv c s \<Longrightarrow> mapped s \<Longrightarrow> sized c s"
proof -
  assume i: "array_inv c s" and m: "mapped s"
  define q where "q = capacity_bytes s div int (calcsize c)"
  define r where "r = capacity_bytes s mod int (calcsize c)"
  have e: "0 < int (calcsize c)" using i by (simp add: array_inv_def)
  have "capacity_bytes s = q * int (calcsize c) + r" by (simp add: q_def r_def)
  moreover have "0 \<le> r" "r < int (calcsize c)" using e by (simp_all add: r_def)
  ultimately have "q * int (calcsize c) \<le> capacity_bytes s"
    and "capacity_bytes s < (q + 1) * int (calcsize c)"
    by (simp_all add: algebra_simps)
  then show ?thesis
    using i m by (auto simp: sized_def array_inv_def q_def)
qed


lemma init_fresh_eq:
  assumes "CHR ''w'' \<in> set mode \<or> existing = None" "0 \<le> hint" "0 < calcsize c" "header_ok c 0"
  shows "init c existing mode hint
           = Inr ((grown c (nat hint) (blank []))
                    \<lparr>disk := header_of c 0 @ replicate (alloc_size (calcsize c) (nat hint) - 32) 0\<rparr>)"
proof -
  define t where "t = (grown c (nat hint) (blank []))\<lparr>mapped := False\<rparr>"
  have a: "allocate_capacity c hint (blank []) = (Inr (), t)"
    using assms(2,3) by (simp add: allocate_capacity_ok blank_def t_def grown_def)
  have ft: "file_open t" "len t = 0" by (simp_all add: t_def blank_def)
  have w: "write_header c t = (Inr (), t\<lparr>disk := header_of c 0 @ drop 32 (disk t)\<rparr>)"
    using write_header_ok [of c t] assms(4) ft by simp
  have d: "drop 32 (disk t) = replicate (alloc_size (calcsize c) (nat hint) - 32) 0"
    by (simp add: t_def grown_def blank_def truncate_def)
  have cb: "0 < capacity_bytes t"
    using alloc_size_ge_chunk [of "calcsize c" "nat hint"] by (simp add: t_def grown_def)
  have bl: "(blank [])\<lparr>len := 0\<rparr> = blank []" by (simp add: blank_def)
  show ?thesis
    using assms(1) a w cb
    by (simp add: init_def Let_def blank_def [symmetric] bl d) (simp add: t_def grown_def)
qed

lemma alloc_size_0: "e \<le> 4096 \<Longrightarrow> alloc_size e 0 = 4096"
  by (simp add: alloc_size_def)

lemma fresh_int32:
  "init int32 None ''w+b'' 0 = Inr (fresh int32 0)" "length (disk (fresh int32 0)) = 4096"
  "capacity (fresh int32 0) = 1016" "mapped (fresh int32 0)" "len (fresh int32 0) = 0"
proof -
  have h: "header_ok int32 0" by (simp add: header_ok_def int32_fields)
  note e = init_fresh_eq [OF _ _ _ h, of "''w+b''" None 0, simplified int32_fields]
  show "init int32 None ''w+b'' 0 = Inr (fresh int32 0)"
    by (simp add: fresh_def e)
  show "length (disk (fresh int32 0)) = 4096" "capacity (fresh int32 0) = 1016"
    "mapped (fresh int32 0)" "len (fresh int32 0) = 0"
    by (simp_all add: fresh_def e alloc_size_0 grown_def int32_fields blank_def)
qed



lemma negative_hint:
  "init int32 None ''w+b'' (- 8) = Inr (fresh int32 (- 8))" "len (fresh int32 (- 8)) = 0"
  "capacity (fresh int32 (- 8)) = - 8" "\<not> mapped (fresh int32 (- 8))"
proof -
  define t where "t = (blank [])\<lparr>capacity_bytes := - 32, capacity := - 8\<rparr>"
  have a: "allocate_capacity int32 (- 8) (blank []) = (Inr (), t)"
    by (simp add: allocate_capacity_def Let_def int32_fields HEADER_SIZE_def CHUNK_SIZE_BYTES_def
        blank_def t_def truncate_def)
  have h: "header_ok int32 (len t)" "file_open t"
    by (simp_all add: header_ok_def int32_fields t_def blank_def)
  note w = write_header_ok [OF h]
  have bl: "(blank [])\<lparr>len := 0\<rparr> = blank []" by (simp add: blank_def)
  have i: "init int32 None ''w+b'' (- 8) = Inr (t\<lparr>disk := header_of int32 0\<rparr>)"
    using a w by (simp add: init_def Let_def blank_def [symmetric] bl) (simp add: t_def blank_def)
  show "init int32 None ''w+b'' (- 8) = Inr (fresh int32 (- 8))"
    by (simp add: fresh_def i)
  show "len (fresh int32 (- 8)) = 0" "capacity (fresh int32 (- 8)) = - 8"
    "\<not> mapped (fresh int32 (- 8))"
    by (simp_all add: fresh_def i t_def blank_def)
qed

lemma short_file_facts:
  "init int32 (Some (header_of int32 2000)) ''r+b'' 0 = Inr short_file"
  "len short_file = 2000" "capacity short_file = 1016"
proof -
  have h: "header_ok int32 2000" by (simp add: header_ok_def int32_fields)
  have rh: "read_header int32 (blank (header_of int32 2000))
              = (Inr True, (blank (header_of int32 2000))\<lparr>len := 2000\<rparr>)"
    by (rule read_header_ok [OF h]) (simp_all add: int32_fields blank_def)
  note i = init_existing_forward [OF _ rh, of "''r+b''" 0, simplified int32_fields]
  have e: "elements_for 4 0 = 0" by (simp add: elements_for_def)
  show "init int32 (Some (header_of int32 2000)) ''r+b'' 0 = Inr short_file"
    by (simp add: short_file_def i)
  show "len short_file = 2000" "capacity short_file = 1016"
    by (simp_all add: short_file_def i e alloc_size_0 grown_def int32_fields blank_def)
qed

lemma stored_length_header: "header_ok c L \<Longrightarrow> stored_length (header_of c L @ bs) = L"
proof -
  assume ok: "header_ok c L"
  have "le_nat (le_bytes 8 L) = L"
    by (rule le_nat_le_bytes) (use ok in \<open>simp add: header_ok_def\<close>)
  then show ?thesis
    by (simp add: stored_length_def HEADER_SIZE_def header_of_def length_ljust)
qed


lemma sample_mapped: "mapped sample"
proof -
  have "int 0 < capacity sample"
    using sample_facts(1,2) by (simp add: array_inv_def)
  from slot_fits(1) [OF sample_facts(1) this] show ?thesis .
qed

lemma empty_file_opens:
  "\<exists>s. init int32 (Some (header_of int32 0)) ''r+b'' 0 = Inr s"
proof -
  have h: "header_ok int32 0" by (simp add: header_ok_def int32_fields)
  from reopen_ok [OF _ h, of "''r+b''" "[]" 0] show ?thesis
    by (auto simp: int32_fields)
qed

section \<open>Calls that fail to encode a value\<close>

lemma take_drop_prefix:
  assumes "a + n \<le> b" "take b xs = take b ys"
  shows "take n (drop a xs) = take n (drop a ys)"
proof -
  have "take n (drop a (take b zs)) = take n (drop a zs)" for zs :: "'a list"
    using assms(1) by (simp add: drop_take min_def)
  from this [of xs] this [of ys] assms(2) show ?thesis by simp
qed


lemma make_room_keeps:
  assumes "array_inv c s" "len s \<le> m"
  defines "t \<equiv> (if int m > capacity s then grown c m s else s)"
  shows "mapped t = mapped s \<or> len s = 0"
    and "take (HEADER_SIZE + len s * calcsize c) (disk t)
           = take (HEADER_SIZE + len s * calcsize c) (disk s) \<or> len s = 0"
proof -
  have *: "mapped s \<and> HEADER_SIZE + len s * calcsize c \<le> length (disk s)" if "len s \<noteq> 0"
  proof -
    have "int (len s - 1) < capacity s"
      using assms(1) that by (simp add: array_inv_def)
    from slot_fits [OF assms(1) this] show ?thesis
      using that by (simp add: algebra_simps)
  qed
  show "mapped t = mapped s \<or> len s = 0"
    using * by (auto simp: t_def)
  show "take (HEADER_SIZE + len s * calcsize c) (disk t)
          = take (HEADER_SIZE + len s * calcsize c) (disk s) \<or> len s = 0"
  proof (cases "int m > capacity s")
    case True
    then have "capacity s < int m" by simp
    from grown_disk [OF assms(1) this] * show ?thesis
      using True by (auto simp: t_def)
  next
    case False
    then show ?thesis by (simp add: t_def)
  qed
qed



lemma sample_iter: "iter int32 sample = [Inr (PInt 10), Inr (PInt 20), Inr (PInt 30)]"
proof -
  have e: "\<forall>v\<in>set [PInt 10, PInt 20, PInt 30]. encodes int32 v"
    by (simp add: int32_encodes)
  from iter_ok [OF sample_facts(1,3) e] show ?thesis
    by (simp add: sample_facts(2))
qed


section \<open>In-place repeat on a mapped container\<close>

lemma copy_chunks_ok:
  assumes "mapped s" "src + n \<le> dst" "dst + k * n \<le> length (disk s)"
  shows "copy_chunks k src dst n s
           = (Inr (), s\<lparr>disk := take dst (disk s)
                                @ concat (replicate k (take n (drop src (disk s))))
                                @ drop (dst + k * n) (disk s)\<rparr>)"
  using assms
proof (induction k arbitrary: dst s)
  case 0
  then show ?case by simp
next
  case (Suc k)
  define d where "d = disk s"
  define D where "D = take n (drop src d)"
  have ld: "dst + n + k * n \<le> length d"
    using Suc.prems(3) by (simp add: d_def algebra_simps)
  have lD: "length D = n"
    using Suc.prems(2) ld by (simp add: D_def)
  have g: "mmap_get s src (src + n) = Inr D"
    using Suc.prems(1) by (simp add: mmap_get_def D_def d_def)
  define t where "t = s\<lparr>disk := take dst d @ D @ drop (dst + n) d\<rparr>"
  have ms: "mmap_set s dst (dst + n) D = (Inr (), t)"
    using mmap_set_ok [OF Suc.prems(1), of dst D] ld lD by (simp add: t_def d_def)
  have mt: "mapped t" using Suc.prems(1) by (simp add: t_def)
  have lt: "length (disk t) = length d"
    using ld lD by (simp add: t_def)
  have p1: "take (dst + n) (disk t) = take dst d @ D"
    using ld lD by (simp add: t_def)
  have "take dst (disk t) = take dst d"
    using ld by (simp add: t_def)
  then have p2: "take n (drop src (disk t)) = D"
    unfolding D_def by (rule take_drop_prefix [OF Suc.prems(2)])
  have p3: "drop (dst + n + k * n) (disk t) = drop (dst + n + k * n) d"
    using ld lD by (simp add: t_def add.commute)
  have "copy_chunks k src (dst + n) n t
          = (Inr (), t\<lparr>disk := take (dst + n) (disk t)
                               @ concat (replicate k (take n (drop src (disk t))))
                               @ drop (dst + n + k * n) (disk t)\<rparr>)"
    by (rule Suc.IH [OF mt]) (use Suc.prems(2) ld lt in simp_all)
  then have "copy_chunks k src (dst + n) n t
          = (Inr (), s\<lparr>disk := take dst d @ D @ concat (replicate k D)
                               @ drop (dst + n + k * n) d\<rparr>)"
    unfolding p1 p2 p3 by (simp add: t_def)
  then show ?case
    using g ms by (simp add: D_def d_def algebra_simps)
qed

lemma concat_replicate_block:
  assumes "length D = q" "j < n" "a + e \<le> q"
  shows "take e (drop (j * q + a) (concat (replicate n D))) = take e (drop a D)"
  using assms
proof (induction n arbitrary: j)
  case 0
  then show ?case by simp
next
  case (Suc n)
  show ?case
  proof (cases j)
    case 0
    then show ?thesis using Suc.prems by simp
  next
    case (Suc i)
    then have "take e (drop (i * q + a) (concat (replicate n D))) = take e (drop a D)"
      using Suc.prems by (intro Suc.IH) simp_all
    then show ?thesis
      using Suc Suc.prems(1) by (simp add: add.assoc)
  qed
qed

lemma getitem_elem_bytes:
  assumes "array_inv c s" "i < len s"
  shows "getitem c (PInt (int i)) s
           = (case unpack c (take (calcsize c) (drop (i * calcsize c) (elem_bytes c s))) of
                None \<Rightarrow> Inl StructError | Some v \<Rightarrow> Inr v)"
proof -
  have "int (len s - 1) < capacity s" using assms by (simp add: array_inv_def)
  from slot_fits(1) [OF assms(1) this] have m: "mapped s" .
  have "(i + 1) * calcsize c \<le> len s * calcsize c"
    using assms(2) by (intro mult_le_mono1) simp
  then have le: "i * calcsize c + calcsize c \<le> len s * calcsize c" by simp
  have "take (calcsize c) (drop (HEADER_SIZE + i * calcsize c) (disk s))
          = take (calcsize c) (drop (i * calcsize c) (drop HEADER_SIZE (disk s)))"
    by (simp add: add.commute)
  also have "\<dots> = take (calcsize c) (drop (i * calcsize c) (elem_bytes c s))"
    using le by (simp add: elem_bytes_def drop_take min_def)
  finally have "mmap_get s (HEADER_SIZE + i * calcsize c) (HEADER_SIZE + i * calcsize c + calcsize c)
                  = Inr (take (calcsize c) (drop (i * calcsize c) (elem_bytes c s)))"
    using m by (simp add: mmap_get_def)
  then show ?thesis
    using assms(2) m by (simp add: getitem_def validate_index_def Let_def)
qed

text \<open>
  The repeat law on every open container with an active mapping: repeat by \<open>n > 1\<close>
  returns the container with \<open>n\<close> times the length, its element bytes are \<open>n\<close> copies of
  the original element bytes, and the read at \<open>j * L + a\<close> gives what the read at \<open>a\<close> gave;
  repeat by 1 changes nothing.
\<close>

lemma repeat_law:
  assumes i: "array_inv c s" and m: "mapped s" and n: "1 < n"
  shows "\<exists>t. imul c (PInt n) s = (Inr Self, t) \<and> array_inv c t \<and> len t = len s * nat n
             \<and> elem_bytes c t = concat (replicate (nat n) (elem_bytes c s))"
proof -
  define k where "k = nat (n - 1)"
  have nk: "nat n = Suc k" using n by (simp add: k_def)
  define L where "L = len s * nat n"
  define q where "q = len s * calcsize c"
  define t where "t = (if int L > capacity s then grown c L s else s)"
  have "len s * 1 \<le> len s * nat n"
    using n by (intro mult_le_mono2) simp
  then have le: "len s \<le> L" by (simp add: L_def)
  have r: "(if int L > capacity s then resize c (int L) s else (Inr (), s)) = (Inr (), t)"
    unfolding t_def by (rule make_room(1) [OF i le])
  have it: "array_inv c t" and ct: "int L \<le> capacity t" and lt: "len t = len s"
    unfolding t_def by (rule make_room [OF i le])+
  have mt: "mapped t" using m by (simp add: t_def)
  have fit: "HEADER_SIZE + L * calcsize c \<le> length (disk t)"
  proof (cases L)
    case 0
    have "sized c t" by (rule sized_inv [OF it mt])
    then have A: "CHUNK_SIZE_BYTES dvd int (length (disk t))" and B: "0 < length (disk t)"
      unfolding sized_def by blast+
    have "(4096::int) dvd int (length (disk t))"
      using A by (simp only: CHUNK_SIZE_BYTES_def)
    then have "4096 \<le> int (length (disk t))"
      by (rule zdvd_imp_le) (use B in simp)
    then show ?thesis using 0 by (simp add: HEADER_SIZE_def)
  next
    case (Suc j)
    then have "int j < capacity t" using ct by simp
    from slot_fits(2) [OF it this] show ?thesis
      using Suc by (simp add: algebra_simps)
  qed
  have Lq: "L * calcsize c = q + k * q"
    by (simp add: L_def q_def nk algebra_simps)
  have fit': "HEADER_SIZE + q + k * q \<le> length (disk t)"
    using fit by (simp add: Lq)
  define D where "D = take q (drop HEADER_SIZE (disk t))"
  have lD: "length D = q"
    using fit' by (simp add: D_def)
  have Ds: "D = elem_bytes c s"
  proof (cases "len s = 0")
    case True
    then show ?thesis by (simp add: D_def q_def elem_bytes_def)
  next
    case False
    have "take (HEADER_SIZE + len s * calcsize c) (disk t)
            = take (HEADER_SIZE + len s * calcsize c) (disk s)"
      using make_room_keeps(2) [OF i le] False by (simp add: t_def)
    from take_drop_prefix [OF _ this, of HEADER_SIZE q] show ?thesis
      by (simp add: D_def q_def elem_bytes_def)
  qed
  define u where "u = t\<lparr>disk := take (HEADER_SIZE + q) (disk t) @ concat (replicate k D)
                                @ drop (HEADER_SIZE + q + k * q) (disk t)\<rparr>"
  have cc: "copy_chunks k HEADER_SIZE (HEADER_SIZE + q) q t = (Inr (), u)"
    unfolding u_def D_def by (rule copy_chunks_ok [OF mt]) (use fit' in simp_all)
  have su: "same_shape t u"
    using copy_chunks_shape [of t k HEADER_SIZE "HEADER_SIZE + q" q] cc by simp
  have iu: "array_inv c (u\<lparr>len := L\<rparr>)"
    by (rule array_inv_shape [OF su it ct])
  have nz: "n \<noteq> 0" "\<not> n < 0" using n by simp_all
  have im: "imul c (PInt n) s = (Inr Self, u\<lparr>len := L\<rparr>)"
    using n nz r [unfolded L_def] cc [unfolded k_def q_def]
    by (simp add: imul_def Let_def L_def)
  have "drop HEADER_SIZE (take (HEADER_SIZE + q) (disk t)) = D"
    by (simp add: D_def drop_take)
  then have "drop HEADER_SIZE (disk u) = D @ concat (replicate k D)
               @ drop (HEADER_SIZE + q + k * q) (disk t)"
    using fit' by (simp add: u_def)
  then have "take (q + k * q) (drop HEADER_SIZE (disk u)) = D @ concat (replicate k D)"
    using lD by (simp add: length_concat sum_list_replicate)
  then have "elem_bytes c (u\<lparr>len := L\<rparr>) = concat (replicate (nat n) D)"
    by (simp add: elem_bytes_def Lq nk)
  then show ?thesis
    using im iu by (simp add: Ds L_def)
qed

lemma repeat_law_reads:
  assumes i: "array_inv c s" and m: "mapped s" and n: "1 < n"
    and j: "j < nat n" and a: "a < len s"
  shows "getitem c (PInt (int (j * len s + a))) (snd (imul c (PInt n) s))
           = getitem c (PInt (int a)) s"
proof -
  from repeat_law [OF i m n] obtain t where
    t: "imul c (PInt n) s = (Inr Self, t)" "array_inv c t" "len t = len s * nat n"
       "elem_bytes c t = concat (replicate (nat n) (elem_bytes c s))"
    by blast
  have "j * len s + a < j * len s + len s" using a by simp
  also have "\<dots> = (j + 1) * len s" by simp
  also have "\<dots> \<le> nat n * len s" using j by (intro mult_le_mono1) simp
  finally have b: "j * len s + a < len t" by (simp add: t(3) mult.commute)
  have "(a + 1) * calcsize c \<le> len s * calcsize c"
    using a by (intro mult_le_mono1) simp
  then have fit: "a * calcsize c + calcsize c \<le> len s * calcsize c" by simp
  have "take (calcsize c) (drop ((j * len s + a) * calcsize c) (elem_bytes c t))
          = take (calcsize c) (drop (j * (len s * calcsize c) + a * calcsize c)
              (concat (replicate (nat n) (elem_bytes c s))))"
    by (simp add: t(4) algebra_simps)
  also have "\<dots> = take (calcsize c) (drop (a * calcsize c) (elem_bytes c s))"
    by (rule concat_replicate_block [OF elem_bytes_length [OF i] j fit])
  finally have eq: "take (calcsize c) (drop ((j * len s + a) * calcsize c) (elem_bytes c t))
                      = take (calcsize c) (drop (a * calcsize c) (elem_bytes c s))" .
  show ?thesis
    by (simp only: t(1) snd_conv getitem_elem_bytes [OF t(2) b] getitem_elem_bytes [OF i a] eq)
qed

lemma repeat_once: "imul c (PInt 1) s = (Inr Self, s)"
  by (simp add: imul_def)

text \<open>
  In terms of values, and on the sample array: after \<open>a *= 3\<close> iteration gives
  10, 20, 30 three times.
\<close>

lemma concat_map_replicate:
  "concat (map f (concat (replicate n vs))) = concat (replicate n (concat (map f vs)))"
  by (induction n) simp_all

lemma length_concat_replicate: "length (concat (replicate n vs)) = length vs * n"
  by (induction n) simp_all

lemma repeat_law_iter:
  assumes "array_inv c s" "mapped s" "1 < n" "elem_bytes c s = concat (map (packed c) vs)"
    and "\<forall>v\<in>set vs. encodes c v" "len s = length vs"
  shows "iter c (snd (imul c (PInt n) s)) = map Inr (concat (replicate (nat n) vs))"
proof -
  from repeat_law [OF assms(1,2,3)] obtain t where
    t: "imul c (PInt n) s = (Inr Self, t)" "array_inv c t" "len t = len s * nat n"
       "elem_bytes c t = concat (replicate (nat n) (elem_bytes c s))"
    by blast
  have e: "elem_bytes c t = concat (map (packed c) (concat (replicate (nat n) vs)))"
    by (simp add: t(4) assms(4) concat_map_replicate)
  have a: "\<forall>v\<in>set (concat (replicate (nat n) vs)). encodes c v"
    using assms(5) by auto
  have l: "len t = length (concat (replicate (nat n) vs))"
    by (simp add: t(3) assms(6) length_concat_replicate)
  show ?thesis
    using iter_ok [OF t(2) e a l] by (simp add: t(1))
qed

lemma sample_repeat:
  "iter int32 (snd (imul int32 (PInt 3) sample))
     = map Inr [PInt 10, PInt 20, PInt 30, PInt 10, PInt 20, PInt 30, PInt 10, PInt 20, PInt 30]"
proof -
  have e: "\<forall>v\<in>set [PInt 10, PInt 20, PInt 30]. encodes int32 v"
    by (simp add: int32_encodes)
  have "iter int32 (snd (imul int32 (PInt 3) sample))
          = map Inr (concat (replicate (nat 3) [PInt 10, PInt 20, PInt 30]))"
    by (rule repeat_law_iter [OF sample_facts(1) sample_mapped _ sample_facts(3) e])
       (simp_all add: sample_facts(2))
  then show ?thesis by (simp add: numeral_3_eq_3)
qed

lemma sample_reads:
  "getitem int32 (PInt 0) sample = Inr (PInt 10)" "getitem int32 (PInt 1) sample = Inr (PInt 20)"
  "getitem int32 (PInt 2) sample = Inr (PInt 30)"
proof -
  have "map (\<lambda>i. getitem int32 (PInt (int i)) sample) [0, 1, 2]
          = [Inr (PInt 10), Inr (PInt 20), Inr (PInt 30)]"
    using sample_iter by (simp add: iter_def sample_facts(2) numeral_3_eq_3 upt_rec)
  then show "getitem int32 (PInt 0) sample = Inr (PInt 10)"
    "getitem int32 (PInt 1) sample = Inr (PInt 20)"
    "getitem int32 (PInt 2) sample = Inr (PInt 30)"
    by simp_all
qed

section \<open>The claims\<close>

text \<open>
  C1 (amended). For every encoding whose descriptor is at most eight ASCII characters and
  whose element size is positive and below \<open>2 ^ 32\<close>, every non-negative capacity hint and
  every sequence of fewer than \<open>2 ^ 64\<close> values of the encoding: creating a container,
  appending each value, closing it and opening the same file again with the same encoding
  succeeds and yields a container with the same length whose iteration gives the same
  values in the same order.
\<close>

theorem roundtrip_ok:
  assumes "is_ascii (dtype c)" "length (dtype c) \<le> 8" "0 < calcsize c" "calcsize c < 2 ^ 32"
    and "length vs < 2 ^ 64" "0 \<le> hint" "\<forall>v\<in>set vs. encodes c v"
  shows "\<exists>s. roundtrip c hint vs = Inr s \<and> len s = length vs \<and> iter c s = map Inr vs"
proof -
  have l: "length (dtype c) < 2 ^ 8" using assms(2) by simp
  have hn: "header_ok c (length vs)"
    using assms l by (simp add: header_ok_def)
  from reopen_ok [OF _ hn assms(2,3) packed_lengths [OF assms(7)], of "''r+b''" 0]
  obtain s where s: "init c (Some (header_of c (length vs) @ concat (map (packed c) vs))) ''r+b'' 0
                       = Inr s"
    and i: "array_inv c s" and n: "len s = length vs"
    and e: "elem_bytes c s = concat (map (packed c) vs)"
    by auto
  have "iter c s = map Inr vs"
    by (rule iter_ok [OF i e assms(7) n])
  then show ?thesis
    using roundtrip_steps [OF assms(1) l assms(3,4,5,6,7)] s n by simp
qed

text \<open>The round trip of C1 at the values 5 and -7 of the format \<open><i\<close>.\<close>

theorem roundtrip_witness:
  "\<exists>s. roundtrip int32 0 [PInt 5, PInt (- 7)] = Inr s \<and> len s = 2
       \<and> iter int32 s = [Inr (PInt 5), Inr (PInt (- 7))]"
proof -
  have e: "\<forall>v\<in>set [PInt 5, PInt (- 7)]. encodes int32 v"
    by (simp add: int32_encodes)
  have "\<exists>s. roundtrip int32 0 [PInt 5, PInt (- 7)] = Inr s
             \<and> len s = length [PInt 5, PInt (- 7)]
             \<and> iter int32 s = map Inr [PInt 5, PInt (- 7)]"
    by (rule roundtrip_ok [OF int32_fields(1) _ _ _ _ _ e]) (simp_all add: int32_fields)
  then show ?thesis
    by (simp add: numeral_2_eq_2)
qed

text \<open>
  C1 as stated fails for a descriptor of more than eight characters: the header keeps the
  first eight bytes of the descriptor and its full length, so the file written by \<open>close\<close>
  is refused with ValueError when it is opened again with the same encoding. Here the
  format is \<open>xxxxxxxxb\<close> and the value 5.
\<close>

theorem roundtrip_counterexample:
  "encodes padded_int8 (PInt 5) \<and> roundtrip padded_int8 0 [PInt 5] = Inl ValueError"
  using roundtrip_long_dtype [of padded_int8 "[PInt 5]" 0] encodes_5
  by (simp add: padded_int8_def int_codec_def is_ascii_def)

text \<open>
  C4. For a container of length \<open>L\<close>, the index \<open>-k\<close> with \<open>1 \<le> k \<le> L\<close> is normalised to
  \<open>L - k\<close>, so an indexed read at \<open>-k\<close> gives what the read at \<open>L - k\<close> gives, and an
  indexed write at \<open>-k\<close> does what the write at \<open>L - k\<close> does. An index \<open>-j\<close> with
  \<open>j > L\<close> and an index \<open>i \<ge> L\<close> raise IndexError, an index that is not an integer raises
  TypeError, for reads and for writes, and the container is left as it was.
\<close>

theorem negative_index:
  "(1 \<le> k \<and> k \<le> int (len s) \<longrightarrow>
      validate_index s (PInt (- k)) = Inr (nat (int (len s) - k))
      \<and> getitem c (PInt (- k)) s = getitem c (PInt (int (len s) - k)) s
      \<and> setitem c (PInt (- k)) v s = setitem c (PInt (int (len s) - k)) v s)
   \<and> (int (len s) < j \<longrightarrow>
      getitem c (PInt (- j)) s = Inl IndexError \<and> setitem c (PInt (- j)) v s = (Inl IndexError, s))
   \<and> (int (len s) \<le> i \<longrightarrow>
      getitem c (PInt i) s = Inl IndexError \<and> setitem c (PInt i) v s = (Inl IndexError, s))
   \<and> (\<not> isinstance_int x \<longrightarrow>
      getitem c x s = Inl TypeError \<and> setitem c x v s = (Inl TypeError, s))"
  by (simp add: getitem_def setitem_def validate_index_def Let_def)

text \<open>
  C4 on the sample array of length 3, which holds 10, 20, 30: the indices -2, -4, 3 and
  the float 0.5.
\<close>

theorem negative_index_witness:
  "validate_index sample (PInt (- 2)) = Inr 1
   \<and> getitem int32 (PInt (- 2)) sample = Inr (PInt 20)
   \<and> setitem int32 (PInt (- 2)) (PInt 7) sample = setitem int32 (PInt 1) (PInt 7) sample
   \<and> getitem int32 (PInt (- 4)) sample = Inl IndexError
   \<and> setitem int32 (PInt (- 4)) (PInt 7) sample = (Inl IndexError, sample)
   \<and> getitem int32 (PInt 3) sample = Inl IndexError
   \<and> setitem int32 (PInt 3) (PInt 7) sample = (Inl IndexError, sample)
   \<and> getitem int32 (PFloat 1 (- 1)) sample = Inl TypeError
   \<and> setitem int32 (PFloat 1 (- 1)) (PInt 7) sample = (Inl TypeError, sample)"
  using negative_index [of 2 sample int32 "PInt 7" 4 3 "PFloat 1 (- 1)"]
  by (simp add: sample_facts(2) sample_reads)

text \<open>
  C7. In-place repeat with a count that is not an integer or is negative, and in-place
  concatenation with an operand that is not iterable, return \<open>NotImplemented\<close> without
  raising and leave the container (length, capacity, file) unchanged.
\<close>

theorem unsupported_operand:
  "(\<not> isinstance_int n \<or> int_of n < 0 \<longrightarrow> imul c n s = (Inr NotImplemented, s))
   \<and> (\<not> has_iter x \<longrightarrow> iadd c x s = (Inr NotImplemented, s))"
  by (simp add: imul_def iadd_def)

text \<open>C7 on the sample array: repeat by 1.5 and by -1, concatenation with 42.\<close>

theorem unsupported_operand_witness:
  "imul int32 (PFloat 3 (- 1)) sample = (Inr NotImplemented, sample)
   \<and> imul int32 (PInt (- 1)) sample = (Inr NotImplemented, sample)
   \<and> iadd int32 (PInt 42) sample = (Inr NotImplemented, sample)"
  using unsupported_operand [of "PFloat 3 (- 1)" int32 sample "PInt 42"]
    unsupported_operand [of "PInt (- 1)" int32 sample "PInt 42"]
  by simp

text \<open>
  C8. Once \<open>close\<close> has returned, a second call of \<open>close\<close> returns without an exception
  and leaves the instance and its file exactly as the first call left them, and so does
  every later call.
\<close>

theorem close_idempotent:
  "close c s = (Inr (), t) \<Longrightarrow>
   close c t = (Inr (), t) \<and> (\<forall>n. ((\<lambda>u. snd (close c u)) ^^ n) t = t)"
proof -
  assume a: "close c s = (Inr (), t)"
  have c: "close c t = (Inr (), t)"
    using close_result [OF a] by (simp add: close_closed)
  have "((\<lambda>u. snd (close c u)) ^^ n) t = t" for n
    by (induction n) (simp_all add: c)
  then show ?thesis using c by simp
qed

text \<open>C8 on the sample array: it closes, and two more calls change nothing.\<close>

theorem close_idempotent_witness:
  "\<exists>t. close int32 sample = (Inr (), t) \<and> close int32 t = (Inr (), t)
       \<and> snd (close int32 (snd (close int32 t))) = t"
proof -
  have f: "file_open sample" using sample_facts(1) by (simp add: array_inv_def)
  have h: "header_ok int32 (len sample)"
    by (simp add: header_ok_def int32_fields sample_facts(2))
  from close_ok [OF f h] obtain t where t: "close int32 sample = (Inr (), t)" by blast
  from close_idempotent [OF t]
  have "close int32 t = (Inr (), t)" and "((\<lambda>u. snd (close int32 u)) ^^ 2) t = t"
    by blast+
  then show ?thesis using t by (simp add: numeral_2_eq_2)
qed

text \<open>
  C9 (amended). A container whose capacity in bytes is zero has length zero, so every
  indexed read or write on it fails in the index check, before the mapping is looked at:
  with IndexError for every integer index and with TypeError for every other index, the
  container unchanged. The RuntimeError for a missing mapping is raised by an indexed read
  or write exactly when the index passes the check and no mapping is active, as on a closed
  array that is not empty.
\<close>

theorem zero_capacity_access:
  "(array_inv c s \<and> capacity_bytes s = 0 \<longrightarrow>
      getitem c i s = Inl (if isinstance_int i then IndexError else TypeError)
      \<and> setitem c i v s = (Inl (if isinstance_int i then IndexError else TypeError), s))
   \<and> (getitem c j t = Inl RuntimeError \<longleftrightarrow> (\<exists>n. validate_index t j = Inr n) \<and> \<not> mapped t)
   \<and> (fst (setitem c j v t) = Inl RuntimeError
        \<longleftrightarrow> (\<exists>n. validate_index t j = Inr n) \<and> \<not> mapped t)"
proof -
  have "getitem c i s = Inl (if isinstance_int i then IndexError else TypeError)
        \<and> setitem c i v s = (Inl (if isinstance_int i then IndexError else TypeError), s)"
    if "array_inv c s" "capacity_bytes s = 0"
    using unmapped_empty(2) [OF that]
    by (simp add: getitem_def setitem_def validate_index_def Let_def)
  moreover have "getitem c j t = Inl RuntimeError
                 \<longleftrightarrow> (\<exists>n. validate_index t j = Inr n) \<and> \<not> mapped t"
    by (auto simp: getitem_def validate_index_def mmap_get_def Let_def
        split: if_splits sum.splits option.splits)
  moreover have "fst (setitem c j v t) = Inl RuntimeError
                 \<longleftrightarrow> (\<exists>n. validate_index t j = Inr n) \<and> \<not> mapped t"
    by (auto simp: setitem_def validate_index_def mmap_set_def pack_value_def Let_def
        split: if_splits sum.splits option.splits)
  ultimately show ?thesis by blast
qed

text \<open>
  C9 on the cleared sample array (index 0) and, for the second part, on the closed sample
  array of length 3.
\<close>

theorem zero_capacity_access_witness:
  "getitem int32 (PInt 0) cleared = Inl IndexError
   \<and> setitem int32 (PInt 0) (PInt 7) cleared = (Inl IndexError, cleared)
   \<and> getitem int32 (PInt 0) (snd (close int32 sample)) = Inl RuntimeError
   \<and> fst (setitem int32 (PInt 0) (PInt 7) (snd (close int32 sample))) = Inl RuntimeError"
proof -
  have f: "file_open sample" using sample_facts(1) by (simp add: array_inv_def)
  have h: "header_ok int32 (len sample)"
    by (simp add: header_ok_def int32_fields sample_facts(2))
  define t where "t = snd (close int32 sample)"
  have "len t = 3" "\<not> mapped t"
    by (simp_all add: t_def close_ok [OF f h] sample_facts(2))
  then have v: "validate_index t (PInt 0) = Inr 0" "\<not> mapped t"
    by (simp_all add: validate_index_def)
  show ?thesis
    using zero_capacity_access [of int32 cleared "PInt 0" "PInt 7" "PInt 0" t] v
    by (simp add: cleared_facts t_def)
qed

text \<open>
  C9 as stated fails on the cleared sample array: its capacity in bytes is zero, and the
  read and the write at index 0 raise IndexError, not the RuntimeError of a missing
  mapping.
\<close>

theorem zero_capacity_access_counterexample:
  "array_inv int32 cleared \<and> capacity_bytes cleared = 0
   \<and> getitem int32 (PInt 0) cleared = Inl IndexError
   \<and> getitem int32 (PInt 0) cleared \<noteq> Inl RuntimeError
   \<and> fst (setitem int32 (PInt 0) (PInt 7) cleared) = Inl IndexError
   \<and> fst (setitem int32 (PInt 0) (PInt 7) cleared) \<noteq> Inl RuntimeError"
  by (simp add: cleared_facts getitem_def setitem_def validate_index_def)

text \<open>
  C5 (amended). On a container with an open file, repeat by 0 returns the container with
  length 0, capacity 0, capacity in bytes 0 and no mapping, and truncates the backing file
  to 0 bytes. The header is written again by \<open>close\<close> (where it can be packed: an ASCII
  descriptor of fewer than 256 characters and an element size below \<open>2 ^ 32\<close>), after which
  the file is exactly the 32 bytes of the header.
\<close>

theorem repeat_zero:
  "isinstance_int n \<and> int_of n = 0 \<and> file_open s \<longrightarrow>
     (\<exists>t. imul c n s = (Inr Self, t) \<and> len t = 0 \<and> capacity t = 0 \<and> capacity_bytes t = 0
        \<and> \<not> mapped t \<and> length (disk t) = 0
        \<and> (header_ok c 0 \<longrightarrow>
             (\<exists>u. close c t = (Inr (), u) \<and> length (disk u) = HEADER_SIZE \<and> len u = 0)))"
proof (intro impI, elim conjE)
  assume a: "isinstance_int n" "int_of n = 0" "file_open s"
  define t where "t = s\<lparr>len := 0, mapped := False, disk := [], capacity := 0, capacity_bytes := 0\<rparr>"
  have i: "imul c n s = (Inr Self, t)"
    using a by (simp add: imul_clear t_def)
  have "\<exists>u. close c t = (Inr (), u) \<and> length (disk u) = HEADER_SIZE \<and> len u = 0"
    if h: "header_ok c 0"
  proof -
    have "file_open t" "header_ok c (len t)" using a h by (simp_all add: t_def)
    from close_ok [OF this]
    have "close c t = (Inr (), t\<lparr>mapped := False, file_open := False, disk := header_of c 0\<rparr>)"
      by (simp add: t_def elem_bytes_def)
    then show ?thesis by (simp add: t_def HEADER_SIZE_def)
  qed
  then show "\<exists>t. imul c n s = (Inr Self, t) \<and> len t = 0 \<and> capacity t = 0
        \<and> capacity_bytes t = 0 \<and> \<not> mapped t \<and> length (disk t) = 0
        \<and> (header_ok c 0 \<longrightarrow>
             (\<exists>u. close c t = (Inr (), u) \<and> length (disk u) = HEADER_SIZE \<and> len u = 0))"
    using i by (simp add: t_def)
qed

text \<open>C5 on the sample array.\<close>

theorem repeat_zero_witness:
  "\<exists>t u. imul int32 (PInt 0) sample = (Inr Self, t) \<and> len t = 0 \<and> capacity t = 0
      \<and> capacity_bytes t = 0 \<and> \<not> mapped t \<and> length (disk t) = 0
      \<and> close int32 t = (Inr (), u) \<and> length (disk u) = HEADER_SIZE \<and> len u = 0"
proof -
  have "file_open sample" using sample_facts(1) by (simp add: array_inv_def)
  moreover have "header_ok int32 0" by (simp add: header_ok_def int32_fields)
  ultimately show ?thesis
    using repeat_zero [of "PInt 0" sample int32] by auto
qed

text \<open>
  C5 as stated fails on the sample array of length 3: after repeat by 0 the backing file
  has 0 bytes, not the 32 bytes of the header.
\<close>

theorem repeat_zero_counterexample:
  "len sample = 3 \<and> fst (imul int32 (PInt 0) sample) = Inr Self
   \<and> length (disk (snd (imul int32 (PInt 0) sample))) = 0
   \<and> length (disk (snd (imul int32 (PInt 0) sample))) \<noteq> HEADER_SIZE"
  using sample_facts(1)
  by (simp add: sample_facts(2) imul_clear array_inv_def HEADER_SIZE_def)

text \<open>
  C3 (amended). The invariant \<open>0 \<le> length \<le> capacity\<close> holds after the construction of a
  fresh file with a capacity hint that is not negative, after opening an existing file
  whose stored length fits into the file (\<open>32 + length * element_size\<close> is at most the
  file size), and, from a container that satisfies the invariant of an open instance,
  after every append, extend, indexed write, indexed read, in-place concatenation, repeat
  and flush, whether the call returned or raised. Across each of these calls the capacity
  does not decrease, except in repeat by 0.
\<close>

theorem growth_invariant:
  "((CHR ''w'' \<in> set mode \<or> existing = None) \<and> 0 \<le> hint \<and> init c existing mode hint = Inr s1
      \<longrightarrow> int (len s1) \<le> capacity s1 \<and> array_inv c s1)
   \<and> (CHR ''w'' \<notin> set mode2 \<and> init c (Some d) mode2 hint2 = Inr s2
        \<and> HEADER_SIZE + stored_length d * calcsize c \<le> length d
      \<longrightarrow> int (len s2) \<le> capacity s2 \<and> array_inv c s2)
   \<and> (array_inv c s
      \<longrightarrow> int (len (after c k s)) \<le> capacity (after c k s) \<and> array_inv c (after c k s)
          \<and> (\<not> clears k \<longrightarrow> capacity s \<le> capacity (after c k s)))"
proof (intro conjI impI)
  assume a: "(CHR ''w'' \<in> set mode \<or> existing = None) \<and> 0 \<le> hint
             \<and> init c existing mode hint = Inr s1"
  then show i1: "array_inv c s1" using init_fresh(1) by blast
  then show "int (len s1) \<le> capacity s1" by (simp add: array_inv_def)
next
  assume a: "CHR ''w'' \<notin> set mode2 \<and> init c (Some d) mode2 hint2 = Inr s2
             \<and> HEADER_SIZE + stored_length d * calcsize c \<le> length d"
  then show i2: "array_inv c s2" using init_existing_inv by blast
  then show "int (len s2) \<le> capacity s2" by (simp add: array_inv_def)
next
  assume i: "array_inv c s"
  from after_inv [OF i, of k] show i3: "array_inv c (after c k s)" by simp
  then show "int (len (after c k s)) \<le> capacity (after c k s)" by (simp add: array_inv_def)
next
  assume i: "array_inv c s" and "\<not> clears k"
  with after_inv [OF i, of k] show "capacity s \<le> capacity (after c k s)" by simp
qed

text \<open>
  C3 on a fresh \<open><i\<close> array, on the file of an empty closed array opened again, and on
  the sample array under \<open>append(1)\<close> and under repeat by 0.
\<close>

theorem growth_invariant_witness:
  "int (len (fresh int32 0)) \<le> capacity (fresh int32 0)
   \<and> (\<exists>s. init int32 (Some (header_of int32 0)) ''r+b'' 0 = Inr s \<and> int (len s) \<le> capacity s)
   \<and> int (len (after int32 (Append (PInt 1)) sample)) \<le> capacity (after int32 (Append (PInt 1)) sample)
   \<and> capacity sample \<le> capacity (after int32 (Append (PInt 1)) sample)
   \<and> int (len (after int32 (IMul (PInt 0)) sample)) \<le> capacity (after int32 (IMul (PInt 0)) sample)"
proof -
  obtain s where s: "init int32 (Some (header_of int32 0)) ''r+b'' 0 = Inr s"
    using empty_file_opens by blast
  have h: "header_ok int32 0" by (simp add: header_ok_def int32_fields)
  have sl: "stored_length (header_of int32 0) = 0"
    using stored_length_header [OF h, of "[]"] by simp
  have 1: "int (len (fresh int32 0)) \<le> capacity (fresh int32 0)"
    using growth_invariant [of "''w+b''" None 0 int32 "fresh int32 0"] fresh_int32(1) by simp
  have 2: "int (len s) \<le> capacity s"
    using growth_invariant [of _ _ _ int32 _ "''r+b''" "header_of int32 0" 0 s] s sl
    by (simp add: HEADER_SIZE_def)
  have 3: "int (len (after int32 (Append (PInt 1)) sample)) \<le> capacity (after int32 (Append (PInt 1)) sample)
           \<and> capacity sample \<le> capacity (after int32 (Append (PInt 1)) sample)"
    using growth_invariant [of _ _ _ int32 _ _ _ _ _ sample "Append (PInt 1)"] sample_facts(1)
    by simp
  have 4: "int (len (after int32 (IMul (PInt 0)) sample)) \<le> capacity (after int32 (IMul (PInt 0)) sample)"
    using growth_invariant [of _ _ _ int32 _ _ _ _ _ sample "IMul (PInt 0)"] sample_facts(1)
    by simp
  show ?thesis using 1 2 3 4 s by blast
qed

text \<open>
  C3 as stated fails at construction: with the capacity hint -8 the constructor returns an
  \<open><i\<close> array of length 0 and capacity -8, and on a 32-byte file whose header stores the
  length 2000 it returns an array of length 2000 and capacity 1016.
\<close>

theorem growth_invariant_counterexample:
  "init int32 None ''w+b'' (- 8) = Inr (fresh int32 (- 8))
   \<and> \<not> int (len (fresh int32 (- 8))) \<le> capacity (fresh int32 (- 8))
   \<and> init int32 (Some (header_of int32 2000)) ''r+b'' 0 = Inr short_file
   \<and> \<not> int (len short_file) \<le> capacity short_file"
  by (simp add: negative_hint short_file_facts)






text \<open>
  C2, at the input where the code departs from it. On a container with an active mapping
  the repeat law holds (\<open>repeat_law\<close>, \<open>repeat_law_reads\<close>, \<open>repeat_once\<close> above). The
  sample array after repeat by 0 is a container of length 0 with no mapping; repeat by 2
  on it does not return a container of length 0: the copy loop subscripts the missing
  mapping and raises TypeError.
\<close>

theorem repeat_cleared:
  "fst (imul int32 (PInt 0) sample) = Inr Self \<and> snd (imul int32 (PInt 0) sample) = cleared
   \<and> len cleared = 0 \<and> imul int32 (PInt 2) cleared = (Inl TypeError, cleared)"
proof -
  have 1: "imul int32 (PInt 0) sample = (Inr Self, cleared)"
    by (simp add: cleared_def imul_clear)
  have 2: "imul int32 (PInt 2) cleared = (Inl TypeError, cleared)"
    by (simp add: imul_def cleared_facts mmap_get_def Let_def)
  show ?thesis
    by (simp add: 1 2 cleared_facts)
qed

text \<open>
  The count 2 is an integer and not negative, so the call above is not one that is
  answered with \<open>NotImplemented\<close>: it enters the copy loop and raises.
\<close>

theorem repeat_cleared_witness:
  "isinstance_int (PInt 2) \<and> \<not> int_of (PInt 2) < 0 \<and> \<not> mapped cleared
   \<and> fst (imul int32 (PInt 2) cleared) = Inl TypeError
   \<and> snd (imul int32 (PInt 2) cleared) = cleared"
  using repeat_cleared by (simp add: cleared_facts)

end
